theory Spec2Isabelle
  imports Main "HOL-Library.Word" "HOL-Library.AList" "HOL-Library.Char_ord"
    "HOL-Library.List_Lexorder"
begin

section \<open>The NumPy dataset of fileio/numpy.py\<close>

text \<open>
  The class \<open>NumPy\<close> holds a table of observations in a two-dimensional array and serves
  marginal counts and column values from it. The embedding follows the class attribute by
  attribute and method by method.

  \<^item> A two-dimensional array is the list of its rows; all rows of an array have the same
    length. The class accepts the element types \<open>uint8\<close> (categorical codes, an \<open>8 word\<close>)
    and \<open>float32\<close> (continuous values, kept abstract as the type variable \<open>'f\<close>: no
    method computes with them).
  \<^item> A Python \<open>dict\<close> is an association list in insertion order whose keys are distinct;
    storing under a key that is present replaces the value in place.
  \<^item> An exception is a value of \<open>error\<close>. A method that assigns attributes before it
    raises returns the error together with the object as the raise leaves it.
  \<^item> The \<open>isinstance\<close> checks of the methods are discharged by the types of the model,
    apart from those on the values of \<open>col_values\<close>, which are modelled.
  \<^item> Printing and the \<open>Timing\<close> records have no effect on results and are left out.
\<close>

subsection \<open>Errors\<close>

datatype error =
    TypeError string
  | ValueError string
  | KeyError
  | IndexError
  | OutsideModel

text \<open>
  \<open>ValueError\<close> and \<open>TypeError\<close> carry the message of the raise, which tells the checks of
  this class from those of the built-ins (\<open>tuple.index\<close>). \<open>OutsideModel\<close> marks the two
  paths the model does not follow, neither of which an object built by the constructor
  or a frame that has passed the check of its dtypes takes: counting value combinations
  of a \<open>float32\<close> sample, and factorizing a series that is not of dtype \<open>category\<close>.
\<close>

subsection \<open>Dictionaries\<close>

type_synonym ('k, 'v) dict = "('k \<times> 'v) list"

definition dict_of :: "('k \<times> 'v) list \<Rightarrow> ('k, 'v) dict" where
  \<comment> \<open>a dict comprehension: the items are stored one after the other\<close>
  "dict_of kvs = foldl (\<lambda>d kv. AList.update (fst kv) (snd kv) d) [] kvs"

definition keys :: "('k, 'v) dict \<Rightarrow> 'k list" where
  "keys d = map fst d"

definition dict_values :: "('k, 'v) dict \<Rightarrow> 'v list" where
  "dict_values d = map snd d"

fun index_of :: "'a list \<Rightarrow> 'a \<Rightarrow> nat option" where
  \<comment> \<open>\<open>tuple.index\<close>: the first position of the element\<close>
  "index_of [] x = None"
| "index_of (y # ys) x = (if y = x then Some 0 else map_option Suc (index_of ys x))"

subsection \<open>Arrays\<close>

datatype 'f ndarray = U8 "8 word list list" | F32 "'f list list"

definition shape0 :: "'f ndarray \<Rightarrow> nat" where
  "shape0 a = (case a of U8 rs \<Rightarrow> length rs | F32 rs \<Rightarrow> length rs)"

definition row_len :: "'a list list \<Rightarrow> nat" where
  "row_len rs = (case rs of [] \<Rightarrow> 0 | r # _ \<Rightarrow> length r)"

definition shape1 :: "'f ndarray \<Rightarrow> nat" where
  \<comment> \<open>the width is read off the first row; the class reads it of arrays with rows only,
      or after it has rejected the array for having fewer than two rows\<close>
  "shape1 a = (case a of U8 rs \<Rightarrow> row_len rs | F32 rs \<Rightarrow> row_len rs)"

definition take_rows :: "nat \<Rightarrow> 'f ndarray \<Rightarrow> 'f ndarray" where
  \<comment> \<open>\<open>a[:n, :]\<close>\<close>
  "take_rows n a = (case a of U8 rs \<Rightarrow> U8 (take n rs) | F32 rs \<Rightarrow> F32 (take n rs))"

definition pick :: "nat list \<Rightarrow> 'a list \<Rightarrow> error + 'a list" where
  \<comment> \<open>indexing with a list of positions; a position out of range raises\<close>
  "pick js xs = (if \<forall>j \<in> set js. j < length xs then Inr (map (\<lambda>j. xs ! j) js)
                 else Inl IndexError)"

definition pick_rows :: "nat list \<Rightarrow> 'f ndarray \<Rightarrow> error + 'f ndarray" where
  \<comment> \<open>\<open>a[order]\<close>\<close>
  "pick_rows js a =
     (case a of
        U8 rs \<Rightarrow> (case pick js rs of Inl e \<Rightarrow> Inl e | Inr rs' \<Rightarrow> Inr (U8 rs'))
      | F32 rs \<Rightarrow> (case pick js rs of Inl e \<Rightarrow> Inl e | Inr rs' \<Rightarrow> Inr (F32 rs')))"

definition cols_of :: "nat list \<Rightarrow> 'a list list \<Rightarrow> error + 'a list list" where
  \<comment> \<open>\<open>a[:, js]\<close> on the rows\<close>
  "cols_of js rs = (if \<forall>j \<in> set js. j < row_len rs then Inr (map (\<lambda>r. map (\<lambda>j. r ! j) js) rs)
                    else Inl IndexError)"

definition pick_cols :: "nat list \<Rightarrow> 'f ndarray \<Rightarrow> error + 'f ndarray" where
  "pick_cols js a =
     (case a of
        U8 rs \<Rightarrow> (case cols_of js rs of Inl e \<Rightarrow> Inl e | Inr rs' \<Rightarrow> Inr (U8 rs'))
      | F32 rs \<Rightarrow> (case cols_of js rs of Inl e \<Rightarrow> Inl e | Inr rs' \<Rightarrow> Inr (F32 rs')))"

definition column :: "nat \<Rightarrow> 'a list list \<Rightarrow> 'a list" where
  \<comment> \<open>\<open>a[:, j]\<close> for \<open>j\<close> below the width\<close>
  "column j rs = map (\<lambda>r. r ! j) rs"

definition bincount :: "8 word list \<Rightarrow> nat list" where
  \<comment> \<open>\<open>numpy.bincount\<close>: the number of occurrences of each of 0 .. max\<close>
  "bincount xs =
     (if xs = [] then []
      else map (\<lambda>v. count_list (map unat xs) v) [0 ..< Suc (Max (set (map unat xs)))])"

definition unique_rows :: "8 word list list \<Rightarrow> 8 word list list" where
  \<comment> \<open>\<open>numpy.unique(a, axis=0)\<close>: the distinct rows in lexicographic order\<close>
  "unique_rows rs = sort (remdups rs)"

subsection \<open>The object\<close>

datatype dstype = Categorical | Continuous | Mixed

datatype node_type = Category | Float32

record 'f numpy =
  data :: "'f ndarray"
  sample :: "'f ndarray"
  nodes :: "string list"
  categories :: "string list list option"
  order :: "nat list"
  ext_to_orig :: "(string, string) dict"
  orig_to_ext :: "(string, string) dict"
  N :: int
  node_types :: "(string, node_type) dict"
  dstype :: dstype
  node_values :: "(string, (string, nat) dict) dict"

text \<open>
  What the class takes from outside this file: the row permutation of
  \<open>numpy.random.default_rng(seed).permutation(n)\<close>, the method \<open>_generate_random_names\<close>
  of the base class \<open>Data\<close> (it gives the new map from original to external names for a
  seed, or raises), and the conversion of a string to \<open>float32\<close> done by
  \<open>DataFrame.to_numpy\<close>. They are parameters of the model.
\<close>

record 'f env =
  permutation :: "nat \<Rightarrow> nat \<Rightarrow> nat list"
  generate_random_names :: "int option \<Rightarrow> string list \<Rightarrow> error + (string, string) dict"
  float32_of_str :: "string \<Rightarrow> 'f option"

definition MAX_CATEGORY :: nat where
  "MAX_CATEGORY = 100"

subsection \<open>set_N\<close>

definition label_counts :: "string list \<Rightarrow> nat list \<Rightarrow> error + (string, nat) dict" where
  \<comment> \<open>\<open>{categories[j][v]: c for v, c in enumerate(bincount)}\<close>, then the same dict with
      its keys sorted\<close>
  "label_counts cats bc =
     (if length bc \<le> length cats then
        (let counts = dict_of (zip (take (length bc) cats) bc)
         in Inr (map (\<lambda>v. (v, the (map_of counts v))) (sort (keys counts))))
      else Inl IndexError)"

definition node_counts :: "'f numpy \<Rightarrow> nat \<Rightarrow> error + (string \<times> (string, nat) dict)" where
  \<comment> \<open>one turn of the loop over the columns of the sample\<close>
  "node_counts d j =
     (case sample d of
        F32 _ \<Rightarrow> Inl (TypeError ''Cannot cast array data from float32 to int64'')
      | U8 rs \<Rightarrow>
          (case categories d of
             None \<Rightarrow> Inl (TypeError ''NoneType object is not subscriptable'')
           | Some cs \<Rightarrow>
               if j < length cs then
                 (case label_counts (cs ! j) (bincount (column j rs)) of
                    Inl e \<Rightarrow> Inl e
                  | Inr counts \<Rightarrow>
                      if j < length (nodes d) then Inr (nodes d ! j, counts)
                      else Inl IndexError)
               else Inl IndexError))"

fun count_loop :: "'f numpy \<Rightarrow> nat list \<Rightarrow> error option \<times> 'f numpy" where
  "count_loop d [] = (None, d)"
| "count_loop d (j # js) =
     (case node_counts d j of
        Inl e \<Rightarrow> (Some e, d)
      | Inr (n, counts) \<Rightarrow>
          count_loop (d\<lparr>node_values := AList.update n counts (node_values d)\<rparr>) js)"

definition bad_seed :: "int option \<Rightarrow> bool" where
  "bad_seed seed = (case seed of None \<Rightarrow> False | Some s \<Rightarrow> s < 0 \<or> s > 100)"

definition resized :: "'f numpy \<Rightarrow> int \<Rightarrow> 'f numpy" where
  \<comment> \<open>the assignments to \<open>self.N\<close>, \<open>self.sample\<close> and \<open>self.node_values\<close> at the head of
      \<open>set_N\<close>; the sample of all the rows is the data themselves\<close>
  "resized d n =
     d\<lparr>N := n,
       sample := (if n = int (shape0 (data d)) then data d else take_rows (nat n) (data d)),
       node_values := []\<rparr>"

definition count_values :: "'f numpy \<Rightarrow> error option \<times> 'f numpy" where
  \<comment> \<open>the values of the categorical variables and their counts in the sample\<close>
  "count_values d =
     (if dstype d = Categorical then count_loop d [0 ..< shape1 (sample d)] else (None, d))"

definition set_N :: "'f env \<Rightarrow> 'f numpy \<Rightarrow> int \<Rightarrow> int option \<Rightarrow> error option \<times> 'f numpy" where
  "set_N env d n seed =
     (if n < 1 \<or> n > int (shape0 (data d)) \<or> bad_seed seed
      then (Some (ValueError ''Pandas.set_N() bad arg value''), d)
      else
        (case count_values (resized d n) of
           (Some e, d2) \<Rightarrow> (Some e, d2)
         | (None, d2) \<Rightarrow>
             (case seed of
                None \<Rightarrow> (None, d2)
              | Some s \<Rightarrow>
                  if s = 0 then (None, d2)
                  else (case pick_rows (permutation env (nat s) (nat n)) (sample d2) of
                          Inl e \<Rightarrow> (Some e, d2)
                        | Inr a \<Rightarrow> (None, d2\<lparr>sample := a\<rparr>)))))"

subsection \<open>The constructor\<close>

definition bad_col_values :: "dstype \<Rightarrow> (string, string list option) dict \<Rightarrow> bool" where
  \<comment> \<open>categorical: every value is a tuple of strings; continuous: every value is None\<close>
  "bad_col_values t col_values =
     ((t = Categorical \<and> (\<exists>v \<in> set (dict_values col_values). v = None))
      \<or> (t = Continuous \<and> (\<exists>v \<in> set (dict_values col_values). v \<noteq> None)))"

definition bad_shape :: "'f ndarray \<Rightarrow> dstype \<Rightarrow> nat \<Rightarrow> bool" where
  "bad_shape a t ncols =
     (shape0 a < 2 \<or> shape1 a < 2 \<or> shape1 a \<noteq> ncols
      \<or> (t = Categorical \<and> (case a of U8 _ \<Rightarrow> False | F32 _ \<Rightarrow> True))
      \<or> (t = Continuous \<and> (case a of U8 _ \<Rightarrow> True | F32 _ \<Rightarrow> False)))"

definition strip_nul :: "string \<Rightarrow> string" where
  \<comment> \<open>a string read back from a fixed-width \<open>numpy\<close> string array: the NUL characters at its
      end are gone\<close>
  "strip_nul s = rev (dropWhile (\<lambda>c. c = CHR 0x00) (rev s))"

definition np_array :: "string list list \<Rightarrow> string list list" where
  \<comment> \<open>\<open>numpy.array\<close> of a list of tuples of strings: tuples of one length make a
      two-dimensional array of fixed-width strings, tuples of different lengths an array
      of the tuples themselves\<close>
  "np_array ts =
     (if \<forall>t \<in> set ts. length t = length (hd ts) then map (map strip_nul) ts else ts)"

definition fresh ::
  "'f ndarray \<Rightarrow> dstype \<Rightarrow> (string, string list option) dict \<Rightarrow> 'f numpy" where
  \<comment> \<open>the attributes the constructor assigns itself; \<open>N\<close>, \<open>sample\<close> and \<open>node_values\<close>
      are not there yet, \<open>set_N\<close> assigns them before it reads any of them\<close>
  "fresh a t col_values =
     (let ns = keys col_values
      in \<lparr>data = a, sample = a, nodes = ns,
          categories = (if t = Categorical
                        then Some (np_array (map (\<lambda>n. the (the (map_of col_values n))) ns))
                        else None),
          order = [0 ..< length ns],
          ext_to_orig = map (\<lambda>n. (n, n)) ns,
          orig_to_ext = map (\<lambda>n. (n, n)) ns,
          N = 0,
          node_types = map (\<lambda>n. (n, if t = Categorical then Category else Float32)) ns,
          dstype = t,
          node_values = []\<rparr>)"

definition NumPy_init ::
  "'f env \<Rightarrow> 'f ndarray \<Rightarrow> dstype \<Rightarrow> (string, string list option) dict \<Rightarrow> error + 'f numpy" where
  "NumPy_init env a t col_values =
     (if bad_col_values t col_values then Inl (TypeError ''NumPy() bad arg type'')
      else if bad_shape a t (length col_values) then Inl (ValueError ''NumPy bad arg values'')
      else (case set_N env (fresh a t col_values) (int (shape0 a)) None of
              (Some e, _) \<Rightarrow> Inl e
            | (None, d') \<Rightarrow> Inr d'))"

subsection \<open>randomise_names\<close>

fun mapM :: "('a \<Rightarrow> error + 'b) \<Rightarrow> 'a list \<Rightarrow> error + 'b list" where
  \<comment> \<open>a comprehension whose element expression may raise: the first raise ends it\<close>
  "mapM f [] = Inr []"
| "mapM f (x # xs) =
     (case f x of
        Inl e \<Rightarrow> Inl e
      | Inr y \<Rightarrow> (case mapM f xs of Inl e \<Rightarrow> Inl e | Inr ys \<Rightarrow> Inr (y # ys)))"

definition lookup :: "('k, 'v) dict \<Rightarrow> 'k \<Rightarrow> error + 'v" where
  \<comment> \<open>\<open>d[k]\<close>\<close>
  "lookup d k = (case map_of d k of None \<Rightarrow> Inl KeyError | Some v \<Rightarrow> Inr v)"

definition rekey :: "(string, string) dict \<Rightarrow> (string, 'v) dict \<Rightarrow> error + (string, 'v) dict" where
  \<comment> \<open>\<open>{map[n]: v for n, v in d.items()}\<close>\<close>
  "rekey m d =
     (case mapM (\<lambda>(n, v). case lookup m n of Inl e \<Rightarrow> Inl e | Inr n' \<Rightarrow> Inr (n', v)) d of
        Inl e \<Rightarrow> Inl e
      | Inr kvs \<Rightarrow> Inr (dict_of kvs))"

definition randomise_names ::
  "'f env \<Rightarrow> 'f numpy \<Rightarrow> int option \<Rightarrow> error option \<times> 'f numpy" where
  "randomise_names env d seed =
     (let old_orig_to_ext = orig_to_ext d
      in case generate_random_names env seed (nodes d) of
           Inl e \<Rightarrow> (Some e, d)
         | Inr o2e \<Rightarrow>
             let d1 = d\<lparr>orig_to_ext := o2e,
                        ext_to_orig := dict_of (map (\<lambda>(orig, ext). (ext, orig)) o2e)\<rparr>
             in case mapM (\<lambda>orig. case lookup old_orig_to_ext orig of
                                     Inl e \<Rightarrow> Inl e
                                   | Inr old \<Rightarrow> Inr (old, the (map_of o2e orig)))
                          (keys o2e) of
                  Inl e \<Rightarrow> (Some e, d1)
                | Inr kvs \<Rightarrow>
                    (case rekey (dict_of kvs) (node_values d1) of
                       Inl e \<Rightarrow> (Some e, d1)
                     | Inr nv \<Rightarrow>
                         (case rekey (dict_of kvs) (node_types d1) of
                            Inl e \<Rightarrow> (Some e, d1\<lparr>node_values := nv\<rparr>)
                          | Inr nt \<Rightarrow> (None, d1\<lparr>node_values := nv, node_types := nt\<rparr>))))"

subsection \<open>marginals and marginals_safe\<close>

type_synonym marginal =
  "int list list \<times> nat \<times> string list option \<times> (string, string) dict list option"

definition query_nodes :: "string \<Rightarrow> (string, string list) dict \<Rightarrow> string list" where
  \<comment> \<open>\<open>tuple([node] + parents[node]) if node in parents else (node,)\<close>\<close>
  "query_nodes node parents =
     (case map_of parents node of Some ps \<Rightarrow> node # ps | None \<Rightarrow> [node])"

definition bad_query :: "'f numpy \<Rightarrow> string list \<Rightarrow> bool" where
  \<comment> \<open>\<open>len(set(nodes) - set(self.node_values)) != 0 or len(nodes) != len(set(nodes))\<close>\<close>
  "bad_query d ns = (\<not> set ns \<subseteq> set (keys (node_values d)) \<or> \<not> distinct ns)"

definition col_index :: "'f numpy \<Rightarrow> string \<Rightarrow> error + nat" where
  \<comment> \<open>\<open>self.nodes.index(self.ext_to_orig[n])\<close>\<close>
  "col_index d n =
     (case lookup (ext_to_orig d) n of
        Inl e \<Rightarrow> Inl e
      | Inr orig \<Rightarrow>
          (case index_of (nodes d) orig of
             None \<Rightarrow> Inl (ValueError ''tuple.index(x): x not in tuple'')
           | Some j \<Rightarrow> Inr j))"

definition int32 :: "nat \<Rightarrow> int" where
  \<comment> \<open>a count stored into an \<open>int32\<close> cell\<close>
  "int32 c = sint (word_of_nat c :: 32 word)"

definition zeros :: "nat \<Rightarrow> nat \<Rightarrow> int list list" where
  "zeros r c = replicate r (replicate c 0)"

fun fill ::
  "int list list \<Rightarrow> nat \<Rightarrow> 8 word list list \<Rightarrow> 8 word list list \<Rightarrow> 8 word list list
     \<Rightarrow> error + int list list" where
  \<comment> \<open>the loop over the distinct value combinations: \<open>counts[i, j] = _counts[idx]\<close>,
      where \<open>_counts[idx]\<close> is the number of sample rows equal to the combination\<close>
  "fill m k p_combos rs [] = Inr m"
| "fill m k p_combos rs (c # cs) =
     (case c of
        [] \<Rightarrow> Inl (ValueError ''not enough values to unpack'')
      | c_value # p_combo \<Rightarrow>
          if unat c_value < k then
            (case index_of p_combos p_combo of
               None \<Rightarrow> Inl KeyError
             | Some j \<Rightarrow>
                 fill (m[unat c_value := (m ! unat c_value)[j := int32 (count_list rs c)]])
                      k p_combos rs cs)
          else Inl KeyError)"

definition maxcol_of :: "'f numpy \<Rightarrow> string list \<Rightarrow> nat" where
  \<comment> \<open>\<open>for p in parents[node]: maxcol *= len(self.node_values[p].keys())\<close>\<close>
  "maxcol_of d ps = foldl (\<lambda>m p. m * length (keys (the (map_of (node_values d) p)))) 1 ps"

definition category_of :: "'f numpy \<Rightarrow> nat \<Rightarrow> error + string list" where
  \<comment> \<open>\<open>self.categories[j]\<close>\<close>
  "category_of d j =
     (case categories d of
        None \<Rightarrow> Inl (TypeError ''NoneType object is not subscriptable'')
      | Some cs \<Rightarrow> if j < length cs then Inr (cs ! j) else Inl IndexError)"

definition colval_entry ::
  "'f numpy \<Rightarrow> nat list \<Rightarrow> 8 word list \<Rightarrow> nat \<Rightarrow> error + (string \<times> string)" where
  \<comment> \<open>\<open>self.orig_to_ext[self.nodes[j_reqd[j]]]: self.categories[j_reqd[j]][c[j - 1]]\<close>\<close>
  "colval_entry d j_reqd c j =
     (case lookup (orig_to_ext d) (nodes d ! (j_reqd ! j)) of
        Inl e \<Rightarrow> Inl e
      | Inr ext \<Rightarrow>
          (case category_of d (j_reqd ! j) of
             Inl e \<Rightarrow> Inl e
           | Inr cat \<Rightarrow>
               if unat (c ! (j - 1)) < length cat then Inr (ext, cat ! unat (c ! (j - 1)))
               else Inl IndexError))"

definition labels ::
  "'f numpy \<Rightarrow> nat list \<Rightarrow> 8 word list list
     \<Rightarrow> error + (string list \<times> (string, string) dict list)" where
  \<comment> \<open>the child value of each row and the parent combination of each column\<close>
  "labels d j_reqd p_combos =
     (case category_of d (j_reqd ! 0) of
        Inl e \<Rightarrow> Inl e
      | Inr rowval \<Rightarrow>
          (case mapM (\<lambda>c. case mapM (colval_entry d j_reqd c) [1 ..< length j_reqd] of
                             Inl e \<Rightarrow> Inl e
                           | Inr kvs \<Rightarrow> Inr (dict_of kvs)) p_combos of
             Inl e \<Rightarrow> Inl e
           | Inr colval \<Rightarrow> Inr (rowval, colval)))"

definition single :: "'f numpy \<Rightarrow> string \<Rightarrow> bool \<Rightarrow> marginal" where
  \<comment> \<open>marginals for a single variable: read off \<open>node_values\<close>\<close>
  "single d node values_reqd =
     (let nv = the (map_of (node_values d) node)
      in (map (\<lambda>c. [int c]) (dict_values nv), 1,
          if values_reqd then Some (keys nv) else None, None))"

definition multiple ::
  "'f numpy \<Rightarrow> string \<Rightarrow> string list \<Rightarrow> nat list \<Rightarrow> bool \<Rightarrow> error + marginal" where
  \<comment> \<open>marginals for several variables, from the columns \<open>j_reqd\<close> of the sample on\<close>
  "multiple d node ps j_reqd values_reqd =
     (case pick_cols j_reqd (sample d) of
        Inl e \<Rightarrow> Inl e
      | Inr (F32 _) \<Rightarrow> Inl OutsideModel
      | Inr (U8 rs) \<Rightarrow>
          if rs = [] then Inl IndexError
          else
            let combos = unique_rows rs;
                c_values = length (the (map_of (node_values d) node));
                p_combos = unique_rows (map tl combos)
            in (case fill (zeros c_values (length p_combos)) c_values p_combos rs combos of
                  Inl e \<Rightarrow> Inl e
                | Inr counts \<Rightarrow>
                    (let maxcol = maxcol_of d ps
                     in if values_reqd then
                          (case labels d j_reqd p_combos of
                             Inl e \<Rightarrow> Inl e
                           | Inr (rowval, colval) \<Rightarrow>
                               Inr (counts, maxcol, Some rowval, Some colval))
                        else Inr (counts, maxcol, None, None))))"

definition marginals ::
  "'f numpy \<Rightarrow> string \<Rightarrow> (string, string list) dict \<Rightarrow> bool \<Rightarrow> error + marginal" where
  "marginals d node parents values_reqd =
     (let ns = query_nodes node parents
      in if bad_query d ns then Inl (ValueError ''NumPy.marginals() bad arg value'')
         else if length ns = 1 then Inr (single d node values_reqd)
         else
           (case mapM (col_index d) ns of
              Inl e \<Rightarrow> Inl e
            | Inr j_reqd \<Rightarrow>
                let num_cats = map (\<lambda>n. length (the (map_of (node_values d) n))) ns
                in multiple d node (tl ns) j_reqd values_reqd))"

definition marginals_safe ::
  "'f numpy \<Rightarrow> string \<Rightarrow> (string, string list) dict \<Rightarrow> bool \<Rightarrow> error + marginal" where
  "marginals_safe d node parents values_reqd =
     (let ns = query_nodes node parents
      in if bad_query d ns then Inl (ValueError ''NumPy.marginals() bad arg value'')
         else if length ns = 1 then Inr (single d node values_reqd)
         else
           (case mapM (col_index d) ns of
              Inl e \<Rightarrow> Inl e
            | Inr j_reqd \<Rightarrow> multiple d node (tl ns) j_reqd values_reqd))"

definition query_error :: error where
  \<comment> \<open>the raise of the validation in \<open>marginals\<close>\<close>
  "query_error = ValueError ''NumPy.marginals() bad arg value''"

subsection \<open>values\<close>

definition numeric :: "'f numpy \<Rightarrow> string set" where
  \<comment> \<open>\<open>{n for n, t in self.node_types.items() if t != 'category'}\<close>\<close>
  "numeric d = set (map fst (filter (\<lambda>(n, t). t \<noteq> Category) (node_types d)))"

definition node_index :: "'f numpy \<Rightarrow> string \<Rightarrow> error + nat" where
  \<comment> \<open>\<open>self.nodes.index(n)\<close>\<close>
  "node_index d n =
     (case index_of (nodes d) n of
        None \<Rightarrow> Inl (ValueError ''tuple.index(x): x not in tuple'')
      | Some j \<Rightarrow> Inr j)"

definition bad_values :: "'f numpy \<Rightarrow> string list \<Rightarrow> bool" where
  \<comment> \<open>\<open>len(nodes) != len(set(nodes)) or len(set(nodes) - numeric) != 0\<close>\<close>
  "bad_values d ns = (\<not> distinct ns \<or> \<not> set ns \<subseteq> numeric d)"

definition values_of :: "'f numpy \<Rightarrow> string list \<Rightarrow> error + 'f ndarray" where
  \<comment> \<open>the method \<open>values\<close>\<close>
  "values_of d ns =
     (if ns = [] then Inl (TypeError ''Pandas.values() bad arg type'')
      else if bad_values d ns
      then Inl (ValueError ''Pandas.values() bad arg values'')
      else (case mapM (node_index d) ns of
              Inl e \<Rightarrow> Inl e
            | Inr js \<Rightarrow> pick_cols js (data d)))"

subsection \<open>from_df\<close>

text \<open>
  A data frame is its columns in order, each a name and a series of the dtype
  \<open>category\<close> (strings) or \<open>float32\<close>, and the length of its index; every series has that
  length. \<open>pandas.factorize\<close> gives the distinct values of a series in the order in which
  they first appear, and for each entry the position of its value among them.
\<close>

datatype 'f series = CategorySeries "string list" | Float32Series "'f list"

record 'f dataframe =
  df_columns :: "(string \<times> 'f series) list"
  df_len :: nat

definition uniques :: "'a list \<Rightarrow> 'a list" where
  "uniques xs = rev (remdups (rev xs))"

definition codes :: "'a list \<Rightarrow> nat list" where
  "codes xs = map (\<lambda>x. the (index_of (uniques xs) x)) xs"

definition is_category :: "'f series \<Rightarrow> bool" where
  "is_category s = (case s of CategorySeries _ \<Rightarrow> True | Float32Series _ \<Rightarrow> False)"

definition bad_df :: "'f dataframe \<Rightarrow> dstype \<Rightarrow> bool" where
  \<comment> \<open>the second check of \<open>from_df\<close>; \<open>dtypes\<close> is the set of the dtypes of the columns\<close>
  "bad_df df t =
     (length (df_columns df) = 1 \<or> df_len df = 1
      \<or> (t = Categorical
          \<and> \<not> (df_columns df \<noteq> [] \<and> (\<forall>c \<in> set (df_columns df). is_category (snd c))))
      \<or> (t = Continuous
          \<and> \<not> (df_columns df \<noteq> [] \<and> (\<forall>c \<in> set (df_columns df). \<not> is_category (snd c)))))"

fun factorize_all ::
  "(string \<times> 'f series) list \<Rightarrow> error + (string \<times> nat list \<times> string list) list" where
  \<comment> \<open>the loop over the columns of a categorical frame: name, codes and values of each\<close>
  "factorize_all [] = Inr []"
| "factorize_all ((col, s) # cs) =
     (case s of
        Float32Series _ \<Rightarrow> Inl OutsideModel
      | CategorySeries xs \<Rightarrow>
          if length (uniques xs) > MAX_CATEGORY
          then Inl (ValueError ''data.read() too many categories'')
          else (case factorize_all cs of
                  Inl e \<Rightarrow> Inl e
                | Inr r \<Rightarrow> Inr ((col, codes xs, uniques xs) # r)))"

definition to_rows :: "nat \<Rightarrow> 'a list list \<Rightarrow> 'a list list" where
  \<comment> \<open>the rows of a frame of the given length from its columns\<close>
  "to_rows n cols = map (\<lambda>i. map (\<lambda>c. c ! i) cols) [0 ..< n]"

definition to_float32 :: "'f env \<Rightarrow> 'f series \<Rightarrow> error + 'f list" where
  "to_float32 env s =
     (case s of
        Float32Series xs \<Rightarrow> Inr xs
      | CategorySeries xs \<Rightarrow>
          mapM (\<lambda>x. case float32_of_str env x of
                      None \<Rightarrow> Inl (ValueError ''could not convert string to float'')
                    | Some v \<Rightarrow> Inr v) xs)"

definition from_df :: "'f env \<Rightarrow> 'f dataframe \<Rightarrow> dstype \<Rightarrow> bool \<Rightarrow> error + 'f numpy" where
  "from_df env df t keep_df =
     (if bad_df df t then Inl (ValueError ''NumPy.from_df() bad arg value'')
      else if t = Categorical then
        (case factorize_all (df_columns df) of
           Inl e \<Rightarrow> Inl e
         | Inr fs \<Rightarrow>
             NumPy_init env
               (U8 (to_rows (df_len df) (map (\<lambda>(col, cds, us). map word_of_nat cds) fs)))
               t (dict_of (map (\<lambda>(col, cds, us). (col, Some us)) fs)))
      else
        (case mapM (\<lambda>(col, s). to_float32 env s) (df_columns df) of
           Inl e \<Rightarrow> Inl e
         | Inr cols \<Rightarrow>
             NumPy_init env (F32 (to_rows (df_len df) cols)) t
               (dict_of (map (\<lambda>(col, s). (col, None)) (df_columns df)))))"

text \<open>The frames the class is given: distinct column names, series of the length of the index.\<close>

definition series_len :: "'f series \<Rightarrow> nat" where
  "series_len s = (case s of CategorySeries xs \<Rightarrow> length xs | Float32Series xs \<Rightarrow> length xs)"

definition df_wf :: "'f dataframe \<Rightarrow> bool" where
  "df_wf df = (distinct (map fst (df_columns df))
               \<and> (\<forall>c \<in> set (df_columns df). series_len (snd c) = df_len df))"

subsection \<open>The states of an object\<close>

text \<open>
  An object is in a state the constructor gave it, or one that a call of \<open>set_N\<close> or
  \<open>randomise_names\<close> that did not raise has left it in.
\<close>

inductive reachable :: "'f env \<Rightarrow> 'f numpy \<Rightarrow> bool" for env :: "'f env" where
  init: "NumPy_init env a t col_values = Inr d \<Longrightarrow> reachable env d"
| set_N: "reachable env d \<Longrightarrow> set_N env d n seed = (None, d') \<Longrightarrow> reachable env d'"
| randomise_names:
    "reachable env d \<Longrightarrow> randomise_names env d seed = (None, d') \<Longrightarrow> reachable env d'"

definition permutation_ok :: "'f env \<Rightarrow> bool" where
  \<comment> \<open>what \<open>numpy\<close> promises of \<open>permutation(n)\<close>: the numbers below \<open>n\<close>, each once\<close>
  "permutation_ok env =
     (\<forall>s n. length (permutation env s n) = n \<and> set (permutation env s n) = {..<n})"

text \<open>The category labels of a variable are distinct values.\<close>

definition distinct_labels :: "'f numpy \<Rightarrow> bool" where
  "distinct_labels d = (case categories d of None \<Rightarrow> True | Some cs \<Rightarrow> \<forall>c \<in> set cs. distinct c)"

text \<open>
  The names of the variables that are in force: the external name of each variable.
\<close>

definition current_names :: "'f numpy \<Rightarrow> string list" where
  "current_names d = map (\<lambda>n. the (map_of (orig_to_ext d) n)) (nodes d)"

text \<open>
  What is expected of \<open>_generate_random_names\<close>: a new name for each variable, different
  variables getting different names.
\<close>

definition names_ok :: "'f env \<Rightarrow> bool" where
  "names_ok env =
     (\<forall>seed ns o2e. generate_random_names env seed ns = Inr o2e
        \<longrightarrow> set (keys o2e) = set ns \<and> inj_on (\<lambda>n. the (map_of o2e n)) (set ns))"

text \<open>
  \<open>set_N\<close> files the value counts under the original names of the variables,
  \<open>marginals\<close> looks them up under the names in force. The states in which the two agree
  are those the constructor gives, those \<open>randomise_names\<close> leads to, and those \<open>set_N\<close>
  leads to when it is called while the original names are in force.
\<close>

inductive in_step :: "'f env \<Rightarrow> 'f numpy \<Rightarrow> bool" for env :: "'f env" where
  init: "NumPy_init env a t col_values = Inr d \<Longrightarrow> in_step env d"
| set_N: "in_step env d \<Longrightarrow> current_names d = nodes d \<Longrightarrow> set_N env d n seed = (None, d')
          \<Longrightarrow> in_step env d'"
| randomise_names:
    "in_step env d \<Longrightarrow> randomise_names env d seed = (None, d') \<Longrightarrow> in_step env d'"

text \<open>
  The value counts of a column of the sample: for the labels of the codes from 0 to the
  highest code in the column, in the order of the labels, the number of rows with the
  code of the label.
\<close>

definition value_counts :: "string list \<Rightarrow> 8 word list \<Rightarrow> (string, nat) dict" where
  "value_counts cats col =
     map (\<lambda>l. (l, count_list (map unat col) (the (index_of cats l))))
         (sort (take (Suc (Max (set (map unat col)))) cats))"

text \<open>
  The renaming that \<open>randomise_names\<close> applies to the keys of \<open>node_values\<close> and
  \<open>node_types\<close>: the old external name of a variable is replaced by its new one.
\<close>

definition renamed :: "(string, string) dict \<Rightarrow> (string, string) dict \<Rightarrow> string \<Rightarrow> string" where
  "renamed old new n =
     the (map_of (dict_of (map (\<lambda>orig. (the (map_of old orig), the (map_of new orig)))
                               (keys new))) n)"

text \<open>A frame none of whose values ends in a NUL character.\<close>

definition ends_nul :: "string \<Rightarrow> bool" where
  "ends_nul s = (s \<noteq> [] \<and> last s = CHR 0x00)"

definition nul_free :: "'f dataframe \<Rightarrow> bool" where
  "nul_free df =
     (\<forall>c \<in> set (df_columns df).
        case snd c of CategorySeries xs \<Rightarrow> \<forall>x \<in> set xs. \<not> ends_nul x
                    | Float32Series _ \<Rightarrow> True)"

subsection \<open>A small data set\<close>

definition ex_env :: "unit env" where
  "ex_env = \<lparr>permutation = (\<lambda>s n. rev [0 ..< n]),
             generate_random_names = (\<lambda>seed ns. Inr (map (\<lambda>n. (n, CHR ''X'' # n)) ns)),
             float32_of_str = (\<lambda>_. None)\<rparr>"

definition ex_data :: "unit ndarray" where
  "ex_data = U8 [[0, 0], [1, 0], [0, 1], [1, 1], [2, 1]]"

definition ex_col_values :: "(string, string list option) dict" where
  "ex_col_values = [(''A'', Some [''a0'', ''a1'', ''a2'']), (''B'', Some [''b1'', ''b0''])]"

definition ex_d :: "unit numpy" where
  "ex_d = \<lparr>data = ex_data, sample = ex_data, nodes = [''A'', ''B''],
           categories = Some [[''a0'', ''a1'', ''a2''], [''b1'', ''b0'']],
           order = [0, 1], ext_to_orig = [(''A'', ''A''), (''B'', ''B'')],
           orig_to_ext = [(''A'', ''A''), (''B'', ''B'')], N = 5,
           node_types = [(''A'', Category), (''B'', Category)],
           dstype = Categorical,
           node_values = [(''A'', [(''a0'', 2), (''a1'', 2), (''a2'', 1)]),
                          (''B'', [(''b0'', 3), (''b1'', 2)])]\<rparr>"

text \<open>A continuous data set; its values stand for the floating point numbers.\<close>

definition ex_rows :: "nat list list" where
  "ex_rows = [[10, 11, 12], [20, 21, 22], [30, 31, 32], [40, 41, 42]]"

definition ex_env_nat :: "nat env" where
  "ex_env_nat = \<lparr>permutation = (\<lambda>s n. rev [0 ..< n]),
             generate_random_names = (\<lambda>seed ns. Inr (map (\<lambda>n. (n, CHR ''X'' # n)) ns)),
             float32_of_str = (\<lambda>_. None)\<rparr>"

definition ex_c :: "nat numpy" where
  "ex_c = \<lparr>data = F32 ex_rows, sample = F32 ex_rows, nodes = [''X'', ''Y'', ''Z''],
           categories = None, order = [0, 1, 2],
           ext_to_orig = [(''X'', ''X''), (''Y'', ''Y''), (''Z'', ''Z'')],
           orig_to_ext = [(''X'', ''X''), (''Y'', ''Y''), (''Z'', ''Z'')], N = 4,
           node_types = [(''X'', Float32), (''Y'', Float32), (''Z'', Float32)],
           dstype = Continuous, node_values = []\<rparr>"

text \<open>Data frames: one that is read, one with too many values, one with a single row.\<close>

definition ex_df :: "unit dataframe" where
  "ex_df = \<lparr>df_columns = [(''A'', CategorySeries [''x'', ''y'', ''x'', ''z'']),
                           (''B'', CategorySeries [''q'', ''p'', ''p'', ''p''])],
            df_len = 4\<rparr>"

definition ex_f :: "unit numpy" where
  "ex_f = \<lparr>data = U8 [[0, 0], [1, 1], [0, 1], [2, 1]],
           sample = U8 [[0, 0], [1, 1], [0, 1], [2, 1]], nodes = [''A'', ''B''],
           categories = Some [[''x'', ''y'', ''z''], [''q'', ''p'']],
           order = [0, 1], ext_to_orig = [(''A'', ''A''), (''B'', ''B'')],
           orig_to_ext = [(''A'', ''A''), (''B'', ''B'')], N = 4,
           node_types = [(''A'', Category), (''B'', Category)],
           dstype = Categorical,
           node_values = [(''A'', [(''x'', 2), (''y'', 1), (''z'', 1)]),
                          (''B'', [(''p'', 3), (''q'', 1)])]\<rparr>"

definition ex_many :: "string list" where
  "ex_many = map (\<lambda>n. [char_of n]) [1 ..< 102]"

definition ex_wide_df :: "unit dataframe" where
  "ex_wide_df = \<lparr>df_columns = [(''A'', CategorySeries ex_many), (''B'', CategorySeries ex_many)],
                 df_len = 101\<rparr>"

definition ex_short_df :: "unit dataframe" where
  "ex_short_df = \<lparr>df_columns = [(''A'', CategorySeries [''x'']), (''B'', CategorySeries [''y''])],
                  df_len = 1\<rparr>"

text \<open>The categorical data set after \<open>set_N(4, 3)\<close>.\<close>

definition ex_d4 :: "unit numpy" where
  "ex_d4 = ex_d\<lparr>N := 4, sample := U8 [[1, 1], [0, 1], [1, 0], [0, 0]],
                 node_values := [(''A'', [(''a0'', 2), (''a1'', 2)]),
                                 (''B'', [(''b0'', 2), (''b1'', 2)])]\<rparr>"

text \<open>
  A data set whose sample of three rows has the values \<open>a0\<close> and \<open>a2\<close> of the four values
  of \<open>A\<close>.
\<close>

definition ex_data2 :: "unit ndarray" where
  "ex_data2 = U8 [[0, 0], [2, 1], [0, 1], [3, 0], [1, 1]]"

definition ex_col_values2 :: "(string, string list option) dict" where
  "ex_col_values2 = [(''A'', Some [''a0'', ''a1'', ''a2'', ''a3'']), (''B'', Some [''b0'', ''b1''])]"

definition ex_e3 :: "unit numpy" where
  "ex_e3 = \<lparr>data = ex_data2, sample = U8 [[0, 0], [2, 1], [0, 1]], nodes = [''A'', ''B''],
            categories = Some [[''a0'', ''a1'', ''a2'', ''a3''], [''b0'', ''b1'']],
            order = [0, 1], ext_to_orig = [(''A'', ''A''), (''B'', ''B'')],
            orig_to_ext = [(''A'', ''A''), (''B'', ''B'')], N = 3,
            node_types = [(''A'', Category), (''B'', Category)],
            dstype = Categorical,
            node_values = [(''A'', [(''a0'', 2), (''a1'', 0), (''a2'', 1)]),
                           (''B'', [(''b0'', 1), (''b1'', 2)])]\<rparr>"

text \<open>
  The categorical data set with the names that \<open>randomise_names(1)\<close> gives it, and the
  same after \<open>set_N(4)\<close>.
\<close>

definition ex_renamed :: "unit numpy" where
  "ex_renamed = ex_d\<lparr>ext_to_orig := [(''XA'', ''A''), (''XB'', ''B'')],
                     orig_to_ext := [(''A'', ''XA''), (''B'', ''XB'')],
                     node_types := [(''XA'', Category), (''XB'', Category)],
                     node_values := [(''XA'', [(''a0'', 2), (''a1'', 2), (''a2'', 1)]),
                                     (''XB'', [(''b0'', 3), (''b1'', 2)])]\<rparr>"

definition ex_renamed4 :: "unit numpy" where
  "ex_renamed4 = ex_renamed\<lparr>N := 4, sample := U8 [[0, 0], [1, 0], [0, 1], [1, 1]],
                            node_values := [(''A'', [(''a0'', 2), (''a1'', 2)]),
                                            (''B'', [(''b0'', 2), (''b1'', 2)])]\<rparr>"

text \<open>The continuous data set with the names that \<open>randomise_names(1)\<close> gives it.\<close>

definition ex_c_renamed :: "nat numpy" where
  "ex_c_renamed = ex_c\<lparr>ext_to_orig := [(''XX'', ''X''), (''XY'', ''Y''), (''XZ'', ''Z'')],
                       orig_to_ext := [(''X'', ''XX''), (''Y'', ''XY''), (''Z'', ''XZ'')],
                       node_types := [(''XX'', Float32), (''XY'', Float32), (''XZ'', Float32)]\<rparr>"

text \<open>A data set in which two labels of a variable are the same string.\<close>

definition ex_dup_data :: "unit ndarray" where
  "ex_dup_data = U8 [[0, 0], [1, 0], [1, 1]]"

definition ex_dup_col_values :: "(string, string list option) dict" where
  "ex_dup_col_values = [(''A'', Some [''x'', ''x'']), (''B'', Some [''y'', ''z''])]"

definition ex_dup :: "unit numpy" where
  "ex_dup = \<lparr>data = ex_dup_data, sample = ex_dup_data, nodes = [''A'', ''B''],
             categories = Some [[''x'', ''x''], [''y'', ''z'']],
             order = [0, 1], ext_to_orig = [(''A'', ''A''), (''B'', ''B'')],
             orig_to_ext = [(''A'', ''A''), (''B'', ''B'')], N = 3,
             node_types = [(''A'', Category), (''B'', Category)],
             dstype = Categorical,
             node_values = [(''A'', [(''x'', 2)]), (''B'', [(''y'', 2), (''z'', 1)])]\<rparr>"

text \<open>A data set of \<open>2 ^ 31\<close> equal rows.\<close>

definition ex_big_rows :: "8 word list list" where
  "ex_big_rows = replicate 2147483648 [0, 0]"

definition ex_big_col_values :: "(string, string list option) dict" where
  "ex_big_col_values = [(''A'', Some [''a'']), (''B'', Some [''b''])]"

definition ex_big :: "unit numpy" where
  "ex_big = \<lparr>data = U8 ex_big_rows, sample = U8 ex_big_rows, nodes = [''A'', ''B''],
             categories = Some [[''a''], [''b'']],
             order = [0, 1], ext_to_orig = [(''A'', ''A''), (''B'', ''B'')],
             orig_to_ext = [(''A'', ''A''), (''B'', ''B'')], N = 2147483648,
             node_types = [(''A'', Category), (''B'', Category)],
             dstype = Categorical,
             node_values = [(''A'', [(''a'', 2147483648)]), (''B'', [(''b'', 2147483648)])]\<rparr>"

text \<open>An array with 101 different codes in its first column, and 101 labels for each column.\<close>

definition ex_many_data :: "unit ndarray" where
  "ex_many_data = U8 (map (\<lambda>i. [word_of_nat i, 0]) [0 ..< 101])"

definition ex_many_col_values :: "(string, string list option) dict" where
  "ex_many_col_values = [(''A'', Some ex_many), (''B'', Some ex_many)]"

text \<open>A frame with a value that ends in a NUL character.\<close>

definition ex_nul_df :: "unit dataframe" where
  "ex_nul_df = \<lparr>df_columns = [(''A'', CategorySeries [[CHR ''a'', CHR 0x00], ''b'']),
                               (''B'', CategorySeries [''x'', ''y''])],
               df_len = 2\<rparr>"

section \<open>Properties\<close>

subsection \<open>What set_N and randomise_names assign\<close>

lemma take_rows_all: "n = shape0 a \<Longrightarrow> take_rows n a = a"
  by (cases a) (simp_all add: take_rows_def shape0_def)

lemma shape0_take_rows: "shape0 (take_rows n a) = min n (shape0 a)"
  by (cases a) (simp_all add: take_rows_def shape0_def min_def)

lemma pick_rows_shape0: "pick_rows js a = Inr a' \<Longrightarrow> shape0 a' = length js"
  by (cases a) (auto simp: pick_rows_def pick_def shape0_def split: if_splits sum.splits)

lemma resized_eq:
  "resized d n = d\<lparr>N := n, sample := take_rows (nat n) (data d), node_values := []\<rparr>"
  using take_rows_all [of "nat n" "data d"] by (auto simp: resized_def)

lemma count_loop_frame: "count_loop d js = (e, d') \<Longrightarrow> \<exists>nv. d' = d\<lparr>node_values := nv\<rparr>"
proof (induction js arbitrary: d)
  case Nil
  then have "d' = d\<lparr>node_values := node_values d\<rparr>" by simp
  then show ?case by blast
next
  case (Cons j js)
  show ?case
  proof (cases "node_counts d j")
    case (Inl err)
    with Cons.prems have "d' = d\<lparr>node_values := node_values d\<rparr>" by simp
    then show ?thesis by blast
  next
    case (Inr p)
    obtain n counts where p: "p = (n, counts)" by (cases p)
    from Cons.prems Inr p
    have "count_loop (d\<lparr>node_values := AList.update n counts (node_values d)\<rparr>) js = (e, d')"
      by simp
    from Cons.IH [OF this] obtain nv where
      "d' = d\<lparr>node_values := AList.update n counts (node_values d)\<rparr>\<lparr>node_values := nv\<rparr>"
      by blast
    then have "d' = d\<lparr>node_values := nv\<rparr>" by simp
    then show ?thesis by blast
  qed
qed

lemma count_values_frame: "count_values d = (e, d') \<Longrightarrow> \<exists>nv. d' = d\<lparr>node_values := nv\<rparr>"
proof (cases "dstype d = Categorical")
  case True
  assume "count_values d = (e, d')"
  with True show ?thesis by (simp add: count_values_def count_loop_frame)
next
  case False
  assume "count_values d = (e, d')"
  with False have "d' = d\<lparr>node_values := node_values d\<rparr>" by (simp add: count_values_def)
  then show ?thesis by blast
qed

lemma set_N_cases [consumes 1, case_names invalid counting unpermuted bad_order permuted]:
  assumes "set_N env d n seed = (e, d')"
  obtains
    "n < 1 \<or> n > int (shape0 (data d)) \<or> bad_seed seed"
      "e = Some (ValueError ''Pandas.set_N() bad arg value'')" "d' = d"
  | err where "1 \<le> n" "n \<le> int (shape0 (data d))" "\<not> bad_seed seed"
      "count_values (resized d n) = (Some err, d')" "e = Some err"
  | "1 \<le> n" "n \<le> int (shape0 (data d))" "seed = None \<or> seed = Some 0"
      "count_values (resized d n) = (None, d')" "e = None"
  | s err where "1 \<le> n" "n \<le> int (shape0 (data d))" "seed = Some s" "s \<noteq> 0" "\<not> bad_seed seed"
      "count_values (resized d n) = (None, d')"
      "pick_rows (permutation env (nat s) (nat n)) (sample d') = Inl err" "e = Some err"
  | s d2 a where "1 \<le> n" "n \<le> int (shape0 (data d))" "seed = Some s" "s \<noteq> 0" "\<not> bad_seed seed"
      "count_values (resized d n) = (None, d2)"
      "pick_rows (permutation env (nat s) (nat n)) (sample d2) = Inr a"
      "d' = d2\<lparr>sample := a\<rparr>" "e = None"
proof (cases "n < 1 \<or> n > int (shape0 (data d)) \<or> bad_seed seed")
  case True
  with assms have "e = Some (ValueError ''Pandas.set_N() bad arg value'')" "d' = d"
    by (simp_all add: set_N_def)
  with True show ?thesis by (rule that(1))
next
  case False
  then have b: "1 \<le> n" "n \<le> int (shape0 (data d))" "\<not> bad_seed seed" by auto
  obtain err d2 where c: "count_values (resized d n) = (err, d2)"
    by (cases "count_values (resized d n)")
  show ?thesis
  proof (cases err)
    case (Some x)
    with assms False c have "e = Some x" "d' = d2" by (simp_all add: set_N_def)
    with b c Some show ?thesis using that(2) [of x] by simp
  next
    case None
    note n = None
    show ?thesis
    proof (cases "seed = None \<or> seed = Some 0")
      case True
      with assms False c n have "e = None" "d' = d2" by (auto simp: set_N_def)
      with b c n True show ?thesis using that(3) by simp
    next
      case F: False
      then obtain s where s: "seed = Some s" "s \<noteq> 0" by (cases seed) auto
      show ?thesis
      proof (cases "pick_rows (permutation env (nat s) (nat n)) (sample d2)")
        case (Inl x)
        with assms False c n s have "e = Some x" "d' = d2" by (simp_all add: set_N_def)
        with b c n s Inl show ?thesis using that(4) [of s x] by simp
      next
        case (Inr a)
        with assms False c n s have "e = None" "d' = d2\<lparr>sample := a\<rparr>"
          by (simp_all add: set_N_def)
        with b c n s Inr show ?thesis using that(5) [of s d2 a] by simp
      qed
    qed
  qed
qed

lemma set_N_frame:
  assumes "set_N env d n seed = (e, d')"
  shows "data d' = data d \<and> nodes d' = nodes d \<and> categories d' = categories d
         \<and> order d' = order d \<and> ext_to_orig d' = ext_to_orig d
         \<and> orig_to_ext d' = orig_to_ext d \<and> node_types d' = node_types d
         \<and> dstype d' = dstype d"
  using assms
  by (cases rule: set_N_cases) (auto simp: resized_eq dest!: count_values_frame)

lemma set_N_success:
  assumes "set_N env d n seed = (None, d')"
  shows "1 \<le> n \<and> n \<le> int (shape0 (data d)) \<and> \<not> bad_seed seed \<and> N d' = n
         \<and> (if seed = None \<or> seed = Some 0 then sample d' = take_rows (nat n) (data d)
             else pick_rows (permutation env (nat (the seed)) (nat n))
                    (take_rows (nat n) (data d)) = Inr (sample d'))"
  using assms
  by (cases rule: set_N_cases) (auto simp: resized_eq bad_seed_def dest!: count_values_frame)

lemma randomise_names_frame:
  assumes "randomise_names env d seed = (e, d')"
  shows "data d' = data d \<and> sample d' = sample d \<and> N d' = N d \<and> nodes d' = nodes d
         \<and> categories d' = categories d \<and> order d' = order d \<and> dstype d' = dstype d"
  using assms unfolding randomise_names_def Let_def
  by (auto split: sum.splits)

lemma init_cases:
  assumes "NumPy_init env a t cv = Inr d"
  shows "\<not> bad_col_values t cv \<and> \<not> bad_shape a t (length cv)
         \<and> count_values ((fresh a t cv)\<lparr>N := int (shape0 a)\<rparr>) = (None, d)"
proof -
  from assms have ok: "\<not> bad_col_values t cv" "\<not> bad_shape a t (length cv)"
    by (auto simp: NumPy_init_def split: if_splits)
  with assms have s: "set_N env (fresh a t cv) (int (shape0 a)) None = (None, d)"
    unfolding NumPy_init_def
    by (auto split: prod.splits option.splits)
  have r: "resized (fresh a t cv) (int (shape0 a)) = (fresh a t cv)\<lparr>N := int (shape0 a)\<rparr>"
    by (simp add: resized_def fresh_def Let_def)
  from s have "count_values (resized (fresh a t cv) (int (shape0 a))) = (None, d)"
    by (cases rule: set_N_cases) auto
  with ok r show ?thesis by simp
qed

lemma init_fields:
  assumes "NumPy_init env a t cv = Inr d"
  shows "data d = a \<and> sample d = a \<and> N d = int (shape0 a) \<and> nodes d = keys cv \<and> dstype d = t
         \<and> 2 \<le> shape0 a \<and> 2 \<le> shape1 a \<and> shape1 a = length cv"
  using init_cases [OF assms]
  by (auto simp: bad_shape_def fresh_def Let_def dest!: count_values_frame)

lemma reachable_size:
  "reachable env d \<Longrightarrow> 2 \<le> shape0 (data d) \<and> 1 \<le> N d \<and> N d \<le> int (shape0 (data d))"
proof (induction rule: reachable.induct)
  case (init a t col_values d)
  from init_fields [OF init] show ?case by auto
next
  case (set_N d n seed d')
  from set_N_frame [OF set_N(2)] set_N_success [OF set_N(2)] set_N(3) show ?case
    by auto
next
  case (randomise_names d seed d')
  from randomise_names_frame [OF randomise_names(2)] randomise_names(3) show ?case
    by simp
qed

lemma reachable_sample_rows:
  "reachable env d \<Longrightarrow> permutation_ok env \<Longrightarrow> int (shape0 (sample d)) = N d"
proof (induction rule: reachable.induct)
  case (init a t col_values d)
  from init_fields [OF init(1)] show ?case by auto
next
  case (set_N d n seed d')
  from set_N_success [OF set_N(2)] set_N(4) show ?case
    by (auto simp: shape0_take_rows permutation_ok_def split: if_splits dest!: pick_rows_shape0)
next
  case (randomise_names d seed d')
  from randomise_names_frame [OF randomise_names(2)] randomise_names(3,4) show ?case
    by simp
qed

lemma ex_init: "NumPy_init ex_env ex_data Categorical ex_col_values = Inr ex_d"
  by code_simp

lemma ex_permutation_ok: "permutation_ok ex_env"
  by (auto simp: permutation_ok_def ex_env_def)

subsection \<open>The working sample\<close>

text \<open>
  C7. \<open>set_N\<close> does not touch the underlying storage: after a call that does not raise, the
  data array is the one it was, and the sample is the first \<open>n\<close> rows of it, in their
  order when the seed is None or 0 and picked in the order of the permutation of the seed
  otherwise.
\<close>

theorem set_N_keeps_storage:
  assumes "set_N env d n seed = (None, d')"
  shows "data d' = data d
         \<and> (if seed = None \<or> seed = Some 0 then sample d' = take_rows (nat n) (data d)
             else pick_rows (permutation env (nat (the seed)) (nat n))
                    (take_rows (nat n) (data d)) = Inr (sample d'))"
  using set_N_frame [OF assms] set_N_success [OF assms] by simp

theorem set_N_keeps_storage_witness:
  "set_N ex_env ex_d 4 (Some 3) =
     (None, ex_d\<lparr>N := 4, sample := U8 [[1, 1], [0, 1], [1, 0], [0, 0]],
                 node_values := [(''A'', [(''a0'', 2), (''a1'', 2)]),
                                 (''B'', [(''b0'', 2), (''b1'', 2)])]\<rparr>)
   \<and> data (ex_d\<lparr>N := 4, sample := U8 [[1, 1], [0, 1], [1, 0], [0, 0]],
                 node_values := [(''A'', [(''a0'', 2), (''a1'', 2)]),
                                 (''B'', [(''b0'', 2), (''b1'', 2)])]\<rparr>) = ex_data
   \<and> pick_rows [3, 2, 1, 0] (take_rows 4 ex_data) = Inr (U8 [[1, 1], [0, 1], [1, 0], [0, 0]])"
proof -
  have h: "set_N ex_env ex_d 4 (Some 3) =
     (None, ex_d\<lparr>N := 4, sample := U8 [[1, 1], [0, 1], [1, 0], [0, 0]],
                 node_values := [(''A'', [(''a0'', 2), (''a1'', 2)]),
                                 (''B'', [(''b0'', 2), (''b1'', 2)])]\<rparr>)"
    by code_simp
  have p: "permutation ex_env 3 4 = [3, 2, 1, 0]" by code_simp
  from set_N_keeps_storage [OF h] h p show ?thesis by (simp add: ex_d_def)
qed

text \<open>
  C3. The claim that the working sample keeps at least two rows fails: \<open>set_N\<close> rejects a
  size below 1, not below 2, so a sample of one row is accepted.
\<close>

theorem set_N_one_row_counterexample:
  "NumPy_init ex_env ex_data Categorical ex_col_values = Inr ex_d
   \<and> fst (set_N ex_env ex_d 1 None) = None
   \<and> N (snd (set_N ex_env ex_d 1 None)) = 1
   \<and> shape0 (sample (snd (set_N ex_env ex_d 1 None))) = 1"
  by code_simp

text \<open>
  C3, as the code has it. The data of an object always have at least two rows; the working
  sample size \<open>N\<close> is the number of rows of the data (so at least 2) when the constructor
  returns, and after every call of \<open>set_N\<close> or \<open>randomise_names\<close> that does not raise it
  lies between 1 and the number of rows of the data, and is the number of rows of the
  sample.
\<close>

theorem working_sample_size:
  assumes "reachable env d"
  shows "2 \<le> shape0 (data d) \<and> 1 \<le> N d \<and> N d \<le> int (shape0 (data d))
         \<and> (permutation_ok env \<longrightarrow> int (shape0 (sample d)) = N d)
         \<and> (\<forall>a t cv. NumPy_init env a t cv = Inr d \<longrightarrow> N d = int (shape0 a) \<and> 2 \<le> N d)"
  using reachable_size [OF assms] reachable_sample_rows [OF assms] init_fields
  by fastforce

theorem working_sample_size_witness:
  "reachable ex_env (snd (set_N ex_env ex_d 1 None)) \<and> permutation_ok ex_env
   \<and> N (snd (set_N ex_env ex_d 1 None)) = 1
   \<and> shape0 (sample (snd (set_N ex_env ex_d 1 None))) = 1
   \<and> shape0 (data (snd (set_N ex_env ex_d 1 None))) = 5"
proof -
  have s: "set_N ex_env ex_d 1 None = (None, snd (set_N ex_env ex_d 1 None))"
    by code_simp
  have r: "reachable ex_env (snd (set_N ex_env ex_d 1 None))"
    by (rule reachable.set_N [OF reachable.init [OF ex_init] s])
  have v: "N (snd (set_N ex_env ex_d 1 None)) = 1" by code_simp
  have w: "shape0 (data (snd (set_N ex_env ex_d 1 None))) = 5" by code_simp
  from working_sample_size [OF r] ex_permutation_ok r v w show ?thesis by simp
qed

subsection \<open>marginals and marginals_safe\<close>

text \<open>
  C9. \<open>marginals\<close> and \<open>marginals_safe\<close> agree on every object and all arguments: they raise
  the same exception or return the same counts, maxcol, rowval and colval.
\<close>

theorem marginals_safe_agrees:
  "marginals d node parents values_reqd = marginals_safe d node parents values_reqd"
  by (simp add: marginals_def marginals_safe_def Let_def split: sum.splits)

subsection \<open>Lists, dictionaries and comprehensions\<close>

lemma index_of_Some: "index_of xs x = Some j \<Longrightarrow> j < length xs \<and> xs ! j = x"
  by (induction xs arbitrary: j) (auto split: if_splits)

lemma index_of_None: "index_of xs x = None \<longleftrightarrow> x \<notin> set xs"
  by (induction xs) auto

lemma index_of_in: "x \<in> set xs \<Longrightarrow> \<exists>j. index_of xs x = Some j"
  using index_of_None [of xs x] by (cases "index_of xs x") auto

lemma mapM_Inr: "(\<And>x. x \<in> set xs \<Longrightarrow> f x = Inr (g x)) \<Longrightarrow> mapM f xs = Inr (map g xs)"
  by (induction xs) auto

lemma mapM_Inl: "mapM f xs = Inl e \<Longrightarrow> \<exists>x \<in> set xs. f x = Inl e"
  by (induction xs) (auto split: sum.splits)

lemma mapM_length: "mapM f xs = Inr ys \<Longrightarrow> length ys = length xs"
  by (induction xs arbitrary: ys) (auto split: sum.splits)

subsection \<open>values\<close>

lemma values_of_cong:
  "data d' = data d \<Longrightarrow> nodes d' = nodes d \<Longrightarrow> node_types d' = node_types d
   \<Longrightarrow> values_of d' ns = values_of d ns"
proof -
  assume a: "data d' = data d" "nodes d' = nodes d" "node_types d' = node_types d"
  then have "node_index d' = node_index d" by (simp add: node_index_def fun_eq_iff)
  with a show ?thesis by (simp add: values_of_def bad_values_def numeric_def split: sum.splits)
qed

lemma init_names:
  assumes "NumPy_init env a t cv = Inr d"
  shows "categories d = (if t = Categorical
                         then Some (np_array (map (\<lambda>n. the (the (map_of cv n))) (keys cv)))
                         else None)
         \<and> node_types d = map (\<lambda>n. (n, if t = Categorical then Category else Float32)) (keys cv)
         \<and> ext_to_orig d = map (\<lambda>n. (n, n)) (keys cv)
         \<and> orig_to_ext d = map (\<lambda>n. (n, n)) (keys cv)"
  using init_cases [OF assms]
  by (auto simp: fresh_def Let_def dest!: count_values_frame)

text \<open>
  While the original names are in force, \<open>values\<close> reads the data, not the working
  sample: on a continuous data set as the constructor gives it, after a call of \<open>set_N\<close>
  with any size and seed, the result for distinct nodes of the data set has one column for
  each node asked for, with all the rows of the data in their order, and is what it was
  before the call.
\<close>

lemma values_reads_all_data:
  assumes "NumPy_init env (F32 rows) Continuous cv = Inr d0"
    and "set_N env d0 n seed = (None, d)"
    and "ns \<noteq> []" and "distinct ns" and "set ns \<subseteq> set (nodes d0)"
  shows "values_of d ns =
           Inr (F32 (map (\<lambda>r. map (\<lambda>x. r ! the (index_of (nodes d0) x)) ns) rows))
         \<and> values_of d ns = values_of d0 ns"
proof -
  from init_fields [OF assms(1)] have f: "data d0 = F32 rows" "nodes d0 = keys cv"
    "row_len rows = length cv" by (simp_all add: shape1_def)
  from init_names [OF assms(1)] have t: "node_types d0 = map (\<lambda>n. (n, Float32)) (keys cv)"
    by simp
  have num: "numeric d0 = set (keys cv)"
    by (auto simp: numeric_def t)
  have ix: "node_index d0 x = Inr (the (index_of (nodes d0) x))" if "x \<in> set ns" for x
  proof -
    from that assms(5) have "x \<in> set (nodes d0)" by auto
    then obtain j where "index_of (nodes d0) x = Some j" using index_of_in by fastforce
    then show ?thesis by (simp add: node_index_def)
  qed
  have m: "mapM (node_index d0) ns = Inr (map (\<lambda>x. the (index_of (nodes d0) x)) ns)"
    by (rule mapM_Inr) (rule ix)
  have r: "\<forall>j \<in> set (map (\<lambda>x. the (index_of (nodes d0) x)) ns). j < row_len rows"
  proof
    fix j assume "j \<in> set (map (\<lambda>x. the (index_of (nodes d0) x)) ns)"
    then obtain x where x: "x \<in> set ns" "j = the (index_of (nodes d0) x)" by auto
    with assms(5) index_of_in [of x "nodes d0"] obtain k where "index_of (nodes d0) x = Some k"
      by auto
    with x index_of_Some [of "nodes d0" x k] f show "j < row_len rows" by (simp add: keys_def)
  qed
  have v0: "values_of d0 ns =
           Inr (F32 (map (\<lambda>r. map (\<lambda>x. r ! the (index_of (nodes d0) x)) ns) rows))"
    using assms(3,4,5) num f m r
    by (simp add: values_of_def bad_values_def pick_cols_def cols_of_def o_def)
  from set_N_frame [OF assms(2)] have "values_of d ns = values_of d0 ns"
    by (intro values_of_cong) simp_all
  with v0 show ?thesis by simp
qed

lemma ex_c_init:
  "NumPy_init ex_env_nat (F32 ex_rows) Continuous [(''X'', None), (''Y'', None), (''Z'', None)]
     = Inr ex_c"
  by code_simp

text \<open>
  C10. After \<open>randomise_names\<close> the claim fails. \<open>values\<close> checks the names it is given
  against the keys of \<open>node_types\<close>, which are the external names then, and looks them up
  in \<open>self.nodes\<close>, which holds the original names, without the translation by
  \<open>ext_to_orig\<close> that \<open>marginals\<close> makes. On the continuous data set renamed with seed 1
  and narrowed to two rows, the numeric node \<open>XX\<close> raises the \<open>ValueError\<close> of
  \<open>tuple.index\<close>, and the original name \<open>X\<close> is rejected as a bad argument.
\<close>

theorem values_after_renaming:
  "NumPy_init ex_env_nat (F32 ex_rows) Continuous [(''X'', None), (''Y'', None), (''Z'', None)]
     = Inr ex_c
   \<and> randomise_names ex_env_nat ex_c (Some 1) = (None, ex_c_renamed)
   \<and> set_N ex_env_nat ex_c_renamed 2 None
       = (None, ex_c_renamed\<lparr>N := 2, sample := F32 [[10, 11, 12], [20, 21, 22]]\<rparr>)
   \<and> numeric ex_c_renamed = {''XX'', ''XY'', ''XZ''}
   \<and> values_of (ex_c_renamed\<lparr>N := 2, sample := F32 [[10, 11, 12], [20, 21, 22]]\<rparr>) [''XX'']
       = Inl (ValueError ''tuple.index(x): x not in tuple'')
   \<and> values_of (ex_c_renamed\<lparr>N := 2, sample := F32 [[10, 11, 12], [20, 21, 22]]\<rparr>) [''X'']
       = Inl (ValueError ''Pandas.values() bad arg values'')
   \<and> values_of ex_c_renamed [''XX''] = Inl (ValueError ''tuple.index(x): x not in tuple'')"
  by code_simp

subsection \<open>The validation of marginals\<close>

lemma col_index_error: "col_index d n = Inl e \<Longrightarrow> e \<noteq> query_error"
  by (auto simp: col_index_def lookup_def query_error_def split: option.splits)

lemma fill_error: "fill m k ps rs cs = Inl e \<Longrightarrow> e \<noteq> query_error"
  by (induction m k ps rs cs rule: fill.induct)
     (auto simp: query_error_def split: list.splits if_splits option.splits)

lemma category_of_error: "category_of d j = Inl e \<Longrightarrow> e \<noteq> query_error"
  by (auto simp: category_of_def query_error_def split: option.splits if_splits)

lemma colval_entry_error: "colval_entry d js c j = Inl e \<Longrightarrow> e \<noteq> query_error"
  by (auto simp: colval_entry_def lookup_def query_error_def
      dest: category_of_error split: option.splits if_splits sum.splits)

lemma labels_error: "labels d js ps = Inl e \<Longrightarrow> e \<noteq> query_error"
  unfolding labels_def
  by (auto split: sum.splits dest!: mapM_Inl dest: category_of_error colval_entry_error)

lemma pick_cols_error: "pick_cols js a = Inl e \<Longrightarrow> e = IndexError"
  by (cases a) (auto simp: pick_cols_def cols_of_def split: if_splits sum.splits)

lemma multiple_error: "multiple d node ps js vr = Inl e \<Longrightarrow> e \<noteq> query_error"
  unfolding multiple_def Let_def
  by (auto split: sum.splits ndarray.splits if_splits prod.splits
      dest: pick_cols_error fill_error labels_error simp: query_error_def)

subsection \<open>Construction from a data frame\<close>

lemma set_update_subset: "set (AList.update k v al) \<subseteq> insert (k, v) (set al)"
  by (induction al) auto

lemma set_foldl_update:
  "set (foldl (\<lambda>d kv. AList.update (fst kv) (snd kv) d) acc kvs) \<subseteq> set acc \<union> set kvs"
proof (induction kvs arbitrary: acc)
  case Nil
  show ?case by simp
next
  case (Cons kv kvs)
  from Cons [of "AList.update (fst kv) (snd kv) acc"] set_update_subset [of "fst kv" "snd kv" acc]
  show ?case by auto
qed

lemma set_dict_of: "set (dict_of kvs) \<subseteq> set kvs"
  using set_foldl_update [of "[]" kvs] by (simp add: dict_of_def)

lemma length_uniques: "length (uniques xs) = card (set xs)"
  by (simp add: uniques_def length_remdups_card_conv)

lemma factorize_all_too_many:
  assumes "\<forall>c \<in> set cols. is_category (snd c)"
    and "\<exists>c \<in> set cols. \<exists>xs. snd c = CategorySeries xs \<and> card (set xs) > MAX_CATEGORY"
  shows "factorize_all cols = Inl (ValueError ''data.read() too many categories'')"
  using assms
proof (induction cols)
  case Nil
  then show ?case by simp
next
  case (Cons c cols)
  obtain col s where c: "c = (col, s)" by (cases c)
  from Cons.prems(1) c obtain xs where s: "s = CategorySeries xs"
    by (cases s) (auto simp: is_category_def)
  show ?case
  proof (cases "card (set xs) > MAX_CATEGORY")
    case True
    with c s show ?thesis by (simp add: length_uniques)
  next
    case False
    with Cons.prems c s have "\<forall>c \<in> set cols. is_category (snd c)"
      "\<exists>c \<in> set cols. \<exists>xs. snd c = CategorySeries xs \<and> card (set xs) > MAX_CATEGORY"
      by auto
    from Cons.IH [OF this] c s False show ?thesis by (simp add: length_uniques)
  qed
qed

lemma factorize_all_error:
  "\<forall>c \<in> set cols. is_category (snd c) \<Longrightarrow> factorize_all cols = Inl e
   \<Longrightarrow> e = ValueError ''data.read() too many categories''"
proof (induction cols)
  case Nil
  then show ?case by simp
next
  case (Cons c cols)
  obtain col s where c: "c = (col, s)" by (cases c)
  from Cons.prems(1) c obtain xs where s: "s = CategorySeries xs"
    by (cases s) (auto simp: is_category_def)
  from Cons c s show ?case by (auto split: if_splits sum.splits)
qed

lemma to_float32_error:
  "to_float32 env s = Inl e \<Longrightarrow> e = ValueError ''could not convert string to float''"
  by (cases s) (auto simp: to_float32_def dest!: mapM_Inl split: option.splits)

lemma init_too_small:
  "shape0 a < 2 \<or> shape1 a < 2 \<Longrightarrow>
     NumPy_init env a t cv = Inl (TypeError ''NumPy() bad arg type'')
     \<or> NumPy_init env a t cv = Inl (ValueError ''NumPy bad arg values'')"
  by (auto simp: NumPy_init_def bad_shape_def)

lemma init_too_small_values:
  "shape0 a < 2 \<or> shape1 a < 2 \<Longrightarrow> \<not> bad_col_values t cv \<Longrightarrow>
     NumPy_init env a t cv = Inl (ValueError ''NumPy bad arg values'')"
  by (auto simp: NumPy_init_def bad_shape_def)

lemma row_len_to_rows: "row_len (to_rows n cols) = (if n = 0 then 0 else length cols)"
proof (cases n)
  case 0
  then show ?thesis by (simp add: to_rows_def row_len_def)
next
  case (Suc m)
  have "[0 ..< Suc m] = 0 # [1 ..< Suc m]" by (simp add: upt_rec)
  with Suc show ?thesis by (simp add: to_rows_def row_len_def)
qed

lemma small_frame:
  fixes cols :: "8 word list list" and cols' :: "'f list list"
  shows "n < 2 \<or> length cols < 2 \<Longrightarrow>
           shape0 (U8 (to_rows n cols) :: 'f ndarray) < 2
           \<or> shape1 (U8 (to_rows n cols) :: 'f ndarray) < 2"
    and "n < 2 \<or> length cols' < 2 \<Longrightarrow>
           shape0 (F32 (to_rows n cols')) < 2 \<or> shape1 (F32 (to_rows n cols')) < 2"
proof -
  have a: "row_len (to_rows n cols) \<le> length cols" "row_len (to_rows n cols') \<le> length cols'"
    by (simp_all add: row_len_to_rows)
  have b: "length (to_rows n cols) = n" "length (to_rows n cols') = n"
    by (simp_all add: to_rows_def)
  show "n < 2 \<or> length cols < 2 \<Longrightarrow>
           shape0 (U8 (to_rows n cols) :: 'f ndarray) < 2
           \<or> shape1 (U8 (to_rows n cols) :: 'f ndarray) < 2"
    using a(1) b(1) by (auto simp: shape0_def shape1_def)
  show "n < 2 \<or> length cols' < 2 \<Longrightarrow>
           shape0 (F32 (to_rows n cols')) < 2 \<or> shape1 (F32 (to_rows n cols')) < 2"
    using a(2) b(2) by (auto simp: shape0_def shape1_def)
qed

lemma factorize_all_length: "factorize_all cols = Inr fs \<Longrightarrow> length fs = length cols"
  by (induction cols arbitrary: fs) (auto split: series.splits if_splits sum.splits)

lemma from_df_fails:
  assumes "(t = Categorical \<and> (\<exists>c \<in> set (df_columns df). \<exists>xs. snd c = CategorySeries xs
                                 \<and> card (set xs) > MAX_CATEGORY))
           \<or> df_len df < 2 \<or> length (df_columns df) < 2"
  shows "\<exists>msg. from_df env df t keep_df = Inl (ValueError msg)"
proof (cases "bad_df df t")
  case True
  then show ?thesis by (simp add: from_df_def)
next
  case nb: False
  show ?thesis
  proof (cases "t = Categorical")
    case True
    with nb have cat: "\<forall>c \<in> set (df_columns df). is_category (snd c)"
      by (auto simp: bad_df_def)
    show ?thesis
    proof (cases "factorize_all (df_columns df)")
      case (Inl e)
      with factorize_all_error [OF cat Inl] nb True show ?thesis by (simp add: from_df_def)
    next
      case (Inr fs)
      with factorize_all_too_many [OF cat] assms True
      have small: "df_len df < 2 \<or> length (df_columns df) < 2" by auto
      have nbc: "\<not> bad_col_values Categorical (dict_of (map (\<lambda>(col, cds, us). (col, Some us)) fs))"
        using set_dict_of [of "map (\<lambda>(col, cds, us). (col, Some us)) fs"]
        by (auto simp: bad_col_values_def dict_values_def)
      have "length (map (\<lambda>(col, cds, us). map word_of_nat cds) fs) = length (df_columns df)"
        using factorize_all_length [OF Inr] by simp
      with small have "df_len df < 2
          \<or> length (map (\<lambda>(col, cds, us). map word_of_nat cds) fs) < 2" by simp
      from init_too_small_values [OF small_frame(1) [OF this] nbc, of env]
      have "NumPy_init env
               (U8 (to_rows (df_len df) (map (\<lambda>(col, cds, us). map word_of_nat cds) fs)))
               Categorical (dict_of (map (\<lambda>(col, cds, us). (col, Some us)) fs))
            = Inl (ValueError ''NumPy bad arg values'')" .
      with nb True Inr show ?thesis by (simp add: from_df_def)
    qed
  next
    case False
    with assms have small: "df_len df < 2 \<or> length (df_columns df) < 2" by auto
    show ?thesis
    proof (cases "mapM (\<lambda>(col, s). to_float32 env s) (df_columns df)")
      case (Inl e)
      then have "e = ValueError ''could not convert string to float''"
        by (auto dest!: mapM_Inl to_float32_error)
      with Inl nb False show ?thesis by (simp add: from_df_def)
    next
      case (Inr cols)
      have nbc: "\<not> bad_col_values t (dict_of (map (\<lambda>(col, s). (col, None)) (df_columns df)))"
        using set_dict_of [of "map (\<lambda>(col, s). (col, None)) (df_columns df)"] False
        by (auto simp: bad_col_values_def dict_values_def)
      from small mapM_length [OF Inr] have "df_len df < 2 \<or> length cols < 2" by simp
      from init_too_small_values [OF small_frame(2) [OF this] nbc, of env]
      have "NumPy_init env (F32 (to_rows (df_len df) cols)) t
               (dict_of (map (\<lambda>(col, s). (col, None)) (df_columns df)))
            = Inl (ValueError ''NumPy bad arg values'')" .
      with nb False Inr show ?thesis by (simp add: from_df_def)
    qed
  qed
qed

text \<open>
  C6. The claim fails for the constructor: it checks the numbers of rows and columns, not
  the number of values of a column. An array whose first column holds 101 different
  codes, with 101 labels for each column, is accepted.
\<close>

theorem constructor_accepts_many:
  "map_sum id (\<lambda>d. (N d, map length (the (categories d)),
                     map (\<lambda>(n, vc). (n, length vc)) (node_values d)))
     (NumPy_init ex_env ex_many_data Categorical ex_many_col_values)
   = Inr (101, [101, 101], [(''A'', 101), (''B'', 1)])
   \<and> MAX_CATEGORY < 101"
  by code_simp

text \<open>
  C6, as the code has it. \<open>from_df\<close> fails with a \<open>ValueError\<close> when a column of a
  categorical frame has more than \<open>MAX_CATEGORY\<close> distinct values, and when the frame has
  fewer than two rows or fewer than two columns; the constructor raises on an array with
  fewer than two rows or fewer than two columns, and does not check the number of values.
\<close>

theorem construction_fails:
  "((t = Categorical \<and> (\<exists>c \<in> set (df_columns df). \<exists>xs. snd c = CategorySeries xs
                           \<and> card (set xs) > MAX_CATEGORY))
      \<or> df_len df < 2 \<or> length (df_columns df) < 2
     \<longrightarrow> (\<exists>msg. from_df env df t keep_df = Inl (ValueError msg)))
   \<and> (shape0 a < 2 \<or> shape1 a < 2 \<longrightarrow> (\<exists>e. NumPy_init env a t cv = Inl e))"
  using from_df_fails [of t df env keep_df] init_too_small [of a env t cv] by blast

theorem construction_fails_witness:
  "card (set ex_many) > MAX_CATEGORY
   \<and> from_df ex_env ex_wide_df Categorical False
       = Inl (ValueError ''data.read() too many categories'')
   \<and> df_len ex_short_df < 2
   \<and> from_df ex_env ex_short_df Categorical False
       = Inl (ValueError ''NumPy.from_df() bad arg value'')
   \<and> shape0 (U8 [[0, 1]] :: unit ndarray) < 2
   \<and> NumPy_init ex_env (U8 [[0, 1]]) Categorical ex_col_values
       = Inl (ValueError ''NumPy bad arg values'')
   \<and> (\<exists>msg. from_df ex_env ex_wide_df Categorical False = Inl (ValueError msg))
   \<and> (\<exists>msg. from_df ex_env ex_short_df Categorical False = Inl (ValueError msg))
   \<and> (\<exists>e. NumPy_init ex_env (U8 [[0, 1]]) Categorical ex_col_values = Inl e)"
proof -
  have a: "card (set ex_many) > MAX_CATEGORY" by code_simp
  have a': "from_df ex_env ex_wide_df Categorical False
       = Inl (ValueError ''data.read() too many categories'')" by code_simp
  have b: "df_len ex_short_df < 2" by (simp add: ex_short_df_def)
  have b': "from_df ex_env ex_short_df Categorical False
       = Inl (ValueError ''NumPy.from_df() bad arg value'')" by code_simp
  have c: "shape0 (U8 [[0, 1]] :: unit ndarray) < 2" by (simp add: shape0_def)
  have c': "NumPy_init ex_env (U8 [[0, 1]]) Categorical ex_col_values
       = Inl (ValueError ''NumPy bad arg values'')" by code_simp
  have m: "(''A'', CategorySeries ex_many) \<in> set (df_columns ex_wide_df)"
    by (simp add: ex_wide_df_def)
  from a m have h: "Categorical = Categorical \<and> (\<exists>c \<in> set (df_columns ex_wide_df).
     \<exists>xs. snd c = CategorySeries xs \<and> card (set xs) > MAX_CATEGORY)"
    by (intro conjI refl bexI [OF _ m] exI [of _ ex_many]) simp_all
  from construction_fails [of Categorical ex_wide_df ex_env False "U8 [[0, 1]]" ex_col_values] h c
  have 1: "\<exists>msg. from_df ex_env ex_wide_df Categorical False = Inl (ValueError msg)"
    and 3: "\<exists>e. NumPy_init ex_env (U8 [[0, 1]]) Categorical ex_col_values = Inl e"
    by blast+
  from construction_fails [of Categorical ex_short_df ex_env False "U8 [[0, 1]]" ex_col_values] b
  have 2: "\<exists>msg. from_df ex_env ex_short_df Categorical False = Inl (ValueError msg)"
    by blast
  from a a' b b' c c' 1 2 3 show ?thesis by blast
qed

subsection \<open>The codes of a categorical frame\<close>

lemma update_new: "k \<notin> fst ` set al \<Longrightarrow> AList.update k v al = al @ [(k, v)]"
  by (induction al) auto

lemma foldl_update_distinct:
  "distinct (map fst (acc @ kvs)) \<Longrightarrow>
   foldl (\<lambda>d kv. AList.update (fst kv) (snd kv) d) acc kvs = acc @ kvs"
proof (induction kvs arbitrary: acc)
  case Nil
  show ?case by simp
next
  case (Cons kv kvs)
  from Cons.prems have "fst kv \<notin> fst ` set acc" by auto
  then have u: "AList.update (fst kv) (snd kv) acc = acc @ [kv]" by (simp add: update_new)
  from Cons.prems have "distinct (map fst ((acc @ [kv]) @ kvs))" by simp
  from Cons.IH [OF this] u show ?case by simp
qed

lemma dict_of_distinct: "distinct (map fst kvs) \<Longrightarrow> dict_of kvs = kvs"
  using foldl_update_distinct [of "[]" kvs] by (simp add: dict_of_def)

lemma map_of_keys: "distinct (map fst kvs) \<Longrightarrow> map (\<lambda>k. the (map_of kvs k)) (map fst kvs) = map snd kvs"
proof (induction kvs)
  case Nil
  show ?case by simp
next
  case (Cons kv kvs)
  from Cons.prems have "fst kv \<notin> fst ` set kvs" by simp
  then have "map (\<lambda>k. the (map_of (kv # kvs) k)) (map fst kvs)
             = map (\<lambda>k. the (map_of kvs k)) (map fst kvs)"
    by (intro map_cong) (auto simp: rev_image_eqI)
  with Cons show ?case by simp
qed

lemma uniques_Nil: "uniques [] = []"
  by (simp add: uniques_def)

lemma distinct_uniques: "distinct (uniques xs)"
  by (simp add: uniques_def)

lemma set_uniques: "set (uniques xs) = set xs"
  by (simp add: uniques_def)

lemma remdups_snoc: "remdups (ys @ [x]) = removeAll x (remdups ys) @ [x]"
  by (induction ys) (auto)

lemma rev_removeAll_eq: "rev (removeAll x ys) = removeAll x (rev ys)"
  by (induction ys) auto

lemma uniques_Cons: "uniques (x # xs) = x # removeAll x (uniques xs)"
  by (simp add: uniques_def remdups_snoc rev_removeAll_eq)

lemma index_of_nth: "distinct xs \<Longrightarrow> k < length xs \<Longrightarrow> index_of xs (xs ! k) = Some k"
proof (induction xs arbitrary: k)
  case Nil
  then show ?case by simp
next
  case (Cons x xs)
  then show ?case by (cases k) auto
qed

lemma uniques_first_appearance:
  "sorted_wrt (\<lambda>u v. the (index_of xs u) < the (index_of xs v)) (uniques xs)"
proof (induction xs)
  case Nil
  show ?case by (simp add: uniques_Nil)
next
  case (Cons x xs)
  have "sorted_wrt (\<lambda>u v. the (index_of xs u) < the (index_of xs v)) (removeAll x (uniques xs))"
    using Cons by (simp add: removeAll_filter_not_eq sorted_wrt_filter)
  then have "sorted_wrt (\<lambda>u v. the (index_of (x # xs) u) < the (index_of (x # xs) v))
               (removeAll x (uniques xs))"
  proof (rule sorted_wrt_mono_rel [rotated])
    fix u v
    assume u: "u \<in> set (removeAll x (uniques xs))" and v: "v \<in> set (removeAll x (uniques xs))"
      and lt: "the (index_of xs u) < the (index_of xs v)"
    from u v have "u \<noteq> x" "v \<noteq> x" "u \<in> set xs" "v \<in> set xs" by (auto simp: set_uniques)
    with lt index_of_in [of u xs] index_of_in [of v xs]
    show "the (index_of (x # xs) u) < the (index_of (x # xs) v)" by auto
  qed
  moreover have "\<forall>v \<in> set (removeAll x (uniques xs)).
                   the (index_of (x # xs) x) < the (index_of (x # xs) v)"
  proof
    fix v assume "v \<in> set (removeAll x (uniques xs))"
    then have "v \<noteq> x" "v \<in> set xs" by (auto simp: set_uniques)
    with index_of_in [of v xs] show "the (index_of (x # xs) x) < the (index_of (x # xs) v)"
      by auto
  qed
  ultimately show ?case by (simp add: uniques_Cons)
qed

lemma codes_nth:
  assumes "i < length xs"
  shows "codes xs ! i < length (uniques xs) \<and> uniques xs ! (codes xs ! i) = xs ! i"
proof -
  from assms have "xs ! i \<in> set (uniques xs)" by (simp add: set_uniques)
  then obtain k where "index_of (uniques xs) (xs ! i) = Some k" using index_of_in by fastforce
  with index_of_Some [OF this] assms show ?thesis by (simp add: codes_def)
qed

lemma set_codes: "set (codes xs) = {..< length (uniques xs)}"
proof (intro set_eqI iffI)
  fix k assume "k \<in> set (codes xs)"
  then obtain i where i: "i < length (codes xs)" "k = codes xs ! i"
    unfolding in_set_conv_nth by blast
  then have "i < length xs" by (simp add: codes_def)
  from codes_nth [OF this] i show "k \<in> {..< length (uniques xs)}" by simp
next
  fix k assume "k \<in> {..< length (uniques xs)}"
  then have k: "k < length (uniques xs)" by simp
  then have "uniques xs ! k \<in> set (uniques xs)" by (rule nth_mem)
  then have m: "uniques xs ! k \<in> set xs" by (simp only: set_uniques)
  have "index_of (uniques xs) (uniques xs ! k) = Some k"
    by (rule index_of_nth [OF distinct_uniques k])
  then have e: "k = (\<lambda>x. the (index_of (uniques xs) x)) (uniques xs ! k)" by simp
  have "k \<in> (\<lambda>x. the (index_of (uniques xs) x)) ` set xs"
    by (rule image_eqI [where f = "\<lambda>x. the (index_of (uniques xs) x)"
          and x = "uniques xs ! k", OF e m])
  then show "k \<in> set (codes xs)" by (simp only: codes_def set_map)
qed

lemma factorize_all_Inr:
  "factorize_all cols = Inr fs \<Longrightarrow>
   list_all2 (\<lambda>c f. \<exists>xs. snd c = CategorySeries xs \<and> f = (fst c, codes xs, uniques xs)
                      \<and> length (uniques xs) \<le> MAX_CATEGORY) cols fs"
proof (induction cols arbitrary: fs)
  case Nil
  then show ?case by simp
next
  case (Cons c cols)
  obtain col s where c: "c = (col, s)" by (cases c)
  from Cons.prems c obtain xs where s: "s = CategorySeries xs" by (cases s) auto
  from Cons.prems c s obtain r where r: "factorize_all cols = Inr r"
    "fs = (col, codes xs, uniques xs) # r" "length (uniques xs) \<le> MAX_CATEGORY"
    by (auto split: if_splits sum.splits)
  from Cons.IH [OF r(1)] r c s show ?case by simp
qed

lemma unat_code: "k \<le> MAX_CATEGORY \<Longrightarrow> unat (word_of_nat k :: 8 word) = k"
  by (simp add: MAX_CATEGORY_def unat_of_nat)

lemma to_rows_nth:
  "i < n \<Longrightarrow> j < length cols \<Longrightarrow> to_rows n cols ! i ! j = cols ! j ! i"
  by (simp add: to_rows_def)

lemma column_to_rows:
  "j < length cols \<Longrightarrow> length (cols ! j) = n \<Longrightarrow> column j (to_rows n cols) = cols ! j"
  by (simp add: column_def to_rows_def list_eq_iff_nth_eq)

lemma from_df_cases:
  assumes "from_df env df Categorical keep_df = Inr d"
  obtains fs where "\<not> bad_df df Categorical" "factorize_all (df_columns df) = Inr fs"
    "NumPy_init env
       (U8 (to_rows (df_len df) (map (\<lambda>(col, cds, us). map word_of_nat cds) fs)))
       Categorical (dict_of (map (\<lambda>(col, cds, us). (col, Some us)) fs)) = Inr d"
  using assms by (auto simp: from_df_def split: if_splits sum.splits)

lemma strip_nul_id: "\<not> ends_nul s \<Longrightarrow> strip_nul s = s"
proof (cases s rule: rev_cases)
  case Nil
  then show ?thesis by (simp add: strip_nul_def)
next
  case (snoc ys y)
  assume "\<not> ends_nul s"
  with snoc show ?thesis by (simp add: strip_nul_def ends_nul_def)
qed

lemma np_array_id: "(\<And>t x. t \<in> set ts \<Longrightarrow> x \<in> set t \<Longrightarrow> strip_nul x = x) \<Longrightarrow> np_array ts = ts"
  by (simp add: np_array_def map_idI)

text \<open>
  For a frame none of whose values ends in a NUL character: after \<open>from_df\<close> on a
  categorical frame, the stored values of each column are the codes 0 .. k-1, where k is
  the number of distinct values of the column (every code below k occurs, and none
  other), and the category tuple of the column gives the value back: code i stands for
  the i-th distinct value in the order of first appearance.
\<close>

lemma from_df_codes:
  assumes "from_df env df Categorical keep_df = Inr d" and "df_wf df" and "nul_free df"
  shows "\<exists>rows cats.
           data d = U8 rows \<and> categories d = Some cats \<and> length rows = df_len df
           \<and> length cats = length (df_columns df)
           \<and> (\<forall>j < length (df_columns df). \<exists>xs.
                 snd (df_columns df ! j) = CategorySeries xs
                 \<and> cats ! j = uniques xs
                 \<and> length (cats ! j) = card (set xs)
                 \<and> distinct (cats ! j) \<and> set (cats ! j) = set xs
                 \<and> sorted_wrt (\<lambda>u v. the (index_of xs u) < the (index_of xs v)) (cats ! j)
                 \<and> unat ` set (column j rows) = {..< length (cats ! j)}
                 \<and> (\<forall>i < df_len df. unat (rows ! i ! j) < length (cats ! j)
                                     \<and> cats ! j ! unat (rows ! i ! j) = xs ! i))"
proof -
  from assms(1) obtain fs where fs: "factorize_all (df_columns df) = Inr fs"
    and init: "NumPy_init env
       (U8 (to_rows (df_len df) (map (\<lambda>(col, cds, us). map word_of_nat cds) fs)))
       Categorical (dict_of (map (\<lambda>(col, cds, us). (col, Some us)) fs)) = Inr d"
    by (rule from_df_cases)
  define cols where "cols = df_columns df"
  define n where "n = df_len df"
  define wcols :: "8 word list list" where "wcols = map (\<lambda>(col, cds, us). map word_of_nat cds) fs"
  define cv where "cv = map (\<lambda>(col, cds, us). (col, Some us)) fs"
  define rows where "rows = to_rows n wcols"
  define cats where "cats = map (\<lambda>(col, cds, us). us) fs"
  note all2 = factorize_all_Inr [OF fs, folded cols_def]
  have len: "length fs = length cols" using list_all2_lengthD [OF all2] by simp
  have col: "\<exists>xs. snd (cols ! j) = CategorySeries xs \<and> fs ! j = (fst (cols ! j), codes xs, uniques xs)
               \<and> length (uniques xs) \<le> MAX_CATEGORY \<and> length xs = n" if "j < length cols" for j
  proof -
    from list_all2_nthD [OF all2 that] obtain xs where
      xs: "snd (cols ! j) = CategorySeries xs" "fs ! j = (fst (cols ! j), codes xs, uniques xs)"
      "length (uniques xs) \<le> MAX_CATEGORY" by blast
    from that have "cols ! j \<in> set cols" by simp
    with assms(2) have "series_len (snd (cols ! j)) = n"
      unfolding df_wf_def cols_def n_def by blast
    with xs show ?thesis by (simp add: series_len_def)
  qed
  have names: "map fst cv = map fst cols"
  proof (rule nth_equalityI)
    show "length (map fst cv) = length (map fst cols)" by (simp add: cv_def len)
  next
    fix j assume "j < length (map fst cv)"
    then have j: "j < length cols" by (simp add: cv_def len)
    from col [OF j] j len show "map fst cv ! j = map fst cols ! j"
      by (auto simp: cv_def)
  qed
  with assms(2) have dist: "distinct (map fst cv)" by (simp add: df_wf_def cols_def)
  then have dcv: "dict_of cv = cv" by (rule dict_of_distinct)
  have snd_cv: "map snd cv = map Some cats"
    by (simp add: cv_def cats_def case_prod_beta)
  have cats_eq: "map (\<lambda>k. the (the (map_of cv k))) (keys cv) = cats"
  proof -
    have "map (\<lambda>k. the (the (map_of cv k))) (map fst cv)
          = map the (map (\<lambda>k. the (map_of cv k)) (map fst cv))" by simp
    also have "\<dots> = map the (map snd cv)" by (simp only: map_of_keys [OF dist])
    also have "\<dots> = cats" by (simp add: snd_cv)
    finally show ?thesis by (simp add: keys_def)
  qed
  from init have init': "NumPy_init env (U8 rows) Categorical cv = Inr d"
    by (simp add: rows_def wcols_def cv_def dcv [unfolded cv_def] n_def)
  from init_fields [OF init'] have d1: "data d = U8 rows" by simp
  have "strip_nul x = x" if "t \<in> set cats" "x \<in> set t" for t x
  proof -
    from that(1) obtain j where j: "j < length fs" "t = (\<lambda>(col, cds, us). us) (fs ! j)"
      by (auto simp: cats_def in_set_conv_nth)
    with len have jc: "j < length cols" by simp
    from col [OF jc] obtain xs where xs: "snd (cols ! j) = CategorySeries xs"
      "fs ! j = (fst (cols ! j), codes xs, uniques xs)" by blast
    with j that(2) have "x \<in> set xs" by (simp add: set_uniques)
    moreover from jc have "cols ! j \<in> set (df_columns df)" by (simp add: cols_def)
    ultimately have "\<not> ends_nul x" using assms(3) xs(1)
      unfolding nul_free_def by force
    then show ?thesis by (rule strip_nul_id)
  qed
  then have "np_array cats = cats" by (intro np_array_id) blast
  with init_names [OF init'] cats_eq have d2: "categories d = Some cats" by simp
  have l1: "length rows = n" by (simp add: rows_def to_rows_def)
  have l2: "length cats = length cols" by (simp add: cats_def len)
  have main: "\<exists>xs. snd (cols ! j) = CategorySeries xs
                 \<and> cats ! j = uniques xs
                 \<and> length (cats ! j) = card (set xs)
                 \<and> distinct (cats ! j) \<and> set (cats ! j) = set xs
                 \<and> sorted_wrt (\<lambda>u v. the (index_of xs u) < the (index_of xs v)) (cats ! j)
                 \<and> unat ` set (column j rows) = {..< length (cats ! j)}
                 \<and> (\<forall>i < n. unat (rows ! i ! j) < length (cats ! j)
                                     \<and> cats ! j ! unat (rows ! i ! j) = xs ! i)"
    if j: "j < length cols" for j
  proof -
    from col [OF j] obtain xs where
      xs: "snd (cols ! j) = CategorySeries xs" "fs ! j = (fst (cols ! j), codes xs, uniques xs)"
      "length (uniques xs) \<le> MAX_CATEGORY" "length xs = n" by blast
    from j len xs have c: "cats ! j = uniques xs" by (simp add: cats_def)
    from j len xs have w: "wcols ! j = map word_of_nat (codes xs)" by (simp add: wcols_def)
    have jw: "j < length wcols" using j len by (simp add: wcols_def)
    have small: "k \<le> MAX_CATEGORY" if "k \<in> set (codes xs)" for k
      using that xs(3) by (simp add: set_codes)
    have un: "map unat (map (word_of_nat :: nat \<Rightarrow> 8 word) (codes xs)) = codes xs"
    proof -
      have "map (\<lambda>k. unat (word_of_nat k :: 8 word)) (codes xs) = map (\<lambda>k. k) (codes xs)"
        by (rule map_cong [OF refl]) (simp add: small unat_code)
      then show ?thesis by (simp add: o_def)
    qed
    have "length (wcols ! j) = n" using w xs(4) by (simp add: codes_def)
    from column_to_rows [OF jw this] have colj: "column j rows = map word_of_nat (codes xs)"
      by (simp add: rows_def w)
    have img: "unat ` set (column j rows) = {..< length (cats ! j)}"
    proof -
      have "unat ` set (column j rows) = set (map unat (column j rows))" by simp
      also have "\<dots> = set (codes xs)" by (simp only: colj un)
      finally show ?thesis by (simp add: set_codes c)
    qed
    have cell: "unat (rows ! i ! j) < length (cats ! j) \<and> cats ! j ! unat (rows ! i ! j) = xs ! i"
      if i: "i < n" for i
    proof -
      from i xs(4) have ix: "i < length xs" by simp
      then have ic: "i < length (codes xs)" by (simp add: codes_def)
      from to_rows_nth [OF i jw] have "rows ! i ! j = word_of_nat (codes xs ! i)"
        by (simp add: rows_def w ic)
      moreover from ic have "codes xs ! i \<in> set (codes xs)" by simp
      then have "unat (word_of_nat (codes xs ! i) :: 8 word) = codes xs ! i"
        by (intro unat_code small)
      ultimately show ?thesis using codes_nth [OF ix] c by simp
    qed
    from xs(1) c img cell show ?thesis
      by (simp add: length_uniques distinct_uniques set_uniques uniques_first_appearance)
  qed
  from d1 d2 l1 l2 main show ?thesis unfolding cols_def n_def by blast
qed

lemma from_df_codes_example:
  "from_df ex_env ex_df Categorical False = Inr ex_f \<and> df_wf ex_df \<and> nul_free ex_df"
proof -
  have h: "from_df ex_env ex_df Categorical False = Inr ex_f" by code_simp
  have w: "df_wf ex_df" by (simp add: df_wf_def ex_df_def series_len_def)
  have n: "nul_free ex_df" by (simp add: nul_free_def ex_df_def ends_nul_def)
  from h w n show ?thesis by simp
qed

text \<open>
  C8. The constructor stores the category tuples in a \<open>numpy\<close> array. When all columns
  have the same number of values this is an array of fixed-width strings, and a string
  read back from it has lost the NUL characters at its end. For the frame whose column
  \<open>A\<close> holds the string of \<open>a\<close> and a NUL character, and then \<open>b\<close>, the recorded tuple
  of \<open>A\<close> is \<open>('a', 'b')\<close>: code 0 does not map back to the value it stands for, against
  the comment in \<open>from_df\<close> that the tuple captures the mapping from code to value.
\<close>

theorem from_df_trailing_nul:
  "map_sum id (\<lambda>d. (data d, categories d)) (from_df ex_env ex_nul_df Categorical False)
   = Inr (U8 [[0, 0], [1, 1]], Some [[''a'', ''b''], [''x'', ''y'']])
   \<and> uniques [[CHR ''a'', CHR 0x00], ''b''] = [[CHR ''a'', CHR 0x00], ''b'']"
  by code_simp

subsection \<open>The value counts of the sample\<close>

lemma sum_list_upt_count:
  "(\<forall>y \<in> set ys. y < m) \<Longrightarrow> sum_list (map (count_list ys) [0 ..< m]) = length ys"
proof -
  assume a: "\<forall>y \<in> set ys. y < m"
  have "sum_list (map (count_list ys) [0 ..< m]) = sum (count_list ys) (set [0 ..< m])"
    by (rule sum_list_distinct_conv_sum_set) simp
  also have "\<dots> = length ys"
    by (rule sum_count_set) (use a in auto)
  finally show ?thesis .
qed

lemma sum_list_bincount: "sum_list (bincount xs) = length xs"
proof (cases "xs = []")
  case True
  then show ?thesis by (simp add: bincount_def)
next
  case False
  have "\<forall>y \<in> set (map unat xs). y < Suc (Max (set (map unat xs)))"
    by (auto simp: less_Suc_eq_le)
  from sum_list_upt_count [OF this] False show ?thesis by (simp add: bincount_def)
qed

lemma label_counts_sum:
  assumes "distinct cats" and "label_counts cats bc = Inr vc"
  shows "sum_list (map snd vc) = sum_list bc"
proof -
  define kvs where "kvs = zip (take (length bc) cats) bc"
  from assms(2) have le: "length bc \<le> length cats"
    by (auto simp: label_counts_def split: if_splits)
  then have ks: "map fst kvs = take (length bc) cats" and vs: "map snd kvs = bc"
    by (simp_all add: kvs_def)
  from assms(1) ks have dist: "distinct (map fst kvs)" by simp
  then have dk: "dict_of kvs = kvs" by (rule dict_of_distinct)
  from assms(2) le dk have vc: "vc = map (\<lambda>v. (v, the (map_of kvs v))) (sort (map fst kvs))"
    by (simp add: label_counts_def kvs_def keys_def)
  have "sum_list (map snd vc) = sum_list (map (\<lambda>v. the (map_of kvs v)) (sort (map fst kvs)))"
    by (simp add: vc o_def)
  also have "\<dots> = sum (\<lambda>v. the (map_of kvs v)) (set (sort (map fst kvs)))"
    by (rule sum_list_distinct_conv_sum_set) (simp add: dist)
  also have "\<dots> = sum (\<lambda>v. the (map_of kvs v)) (set (map fst kvs))" by simp
  also have "\<dots> = sum_list (map (\<lambda>v. the (map_of kvs v)) (map fst kvs))"
    by (rule sum_list_distinct_conv_sum_set [symmetric]) (rule dist)
  also have "\<dots> = sum_list (map snd kvs)" by (simp only: map_of_keys [OF dist])
  finally show ?thesis by (simp add: vs)
qed

lemma node_counts_sum:
  assumes "sample d = U8 rs" and "distinct_labels d" and "node_counts d j = Inr (n, vc)"
  shows "sum_list (map snd vc) = length rs"
proof -
  from assms(1,3) obtain cs where cs: "categories d = Some cs" "j < length cs"
    and lc: "label_counts (cs ! j) (bincount (column j rs)) = Inr vc"
    by (auto simp: node_counts_def split: option.splits if_splits sum.splits)
  from cs assms(2) have "distinct (cs ! j)" by (simp add: distinct_labels_def)
  from label_counts_sum [OF this lc] show ?thesis
    by (simp add: sum_list_bincount column_def)
qed

lemma count_loop_sums:
  assumes "count_loop d js = (e, d')" and "sample d = U8 rs" and "distinct_labels d"
    and "\<forall>p \<in> set (node_values d). sum_list (map snd (snd p)) = length rs"
  shows "\<forall>p \<in> set (node_values d'). sum_list (map snd (snd p)) = length rs"
  using assms
proof (induction js arbitrary: d)
  case Nil
  then show ?case by simp
next
  case (Cons j js)
  show ?case
  proof (cases "node_counts d j")
    case (Inl err)
    with Cons.prems show ?thesis by simp
  next
    case (Inr p)
    obtain n vc where p: "p = (n, vc)" by (cases p)
    define d1 where "d1 = d\<lparr>node_values := AList.update n vc (node_values d)\<rparr>"
    from Cons.prems(1) Inr p have 1: "count_loop d1 js = (e, d')" by (simp add: d1_def)
    have 2: "sample d1 = U8 rs" "distinct_labels d1"
      using Cons.prems(2,3) by (simp_all add: d1_def distinct_labels_def)
    from node_counts_sum [OF Cons.prems(2,3)] Inr p
    have "sum_list (map snd vc) = length rs" by simp
    with Cons.prems(4) set_update_subset [of n vc "node_values d"]
    have 3: "\<forall>p \<in> set (node_values d1). sum_list (map snd (snd p)) = length rs"
      by (auto simp: d1_def)
    from Cons.IH [OF 1 2 3] show ?thesis .
  qed
qed

lemma count_values_sums:
  assumes "count_values d = (e, d')" and "dstype d = Categorical \<longrightarrow> sample d = U8 rs"
    and "distinct_labels d" and "node_values d = []"
  shows "\<forall>p \<in> set (node_values d'). sum_list (map snd (snd p)) = length rs"
proof (cases "dstype d = Categorical")
  case True
  with assms(1) have "count_loop d [0 ..< shape1 (sample d)] = (e, d')"
    by (simp add: count_values_def)
  from count_loop_sums [OF this _ assms(3)] True assms(2,4) show ?thesis by simp
next
  case False
  with assms(1,4) show ?thesis by (simp add: count_values_def)
qed

lemma reachable_categorical_data:
  "reachable env d \<Longrightarrow> dstype d = Categorical \<Longrightarrow> \<exists>rs. data d = U8 rs"
proof (induction rule: reachable.induct)
  case (init a t col_values d)
  from init_cases [OF init(1)] init_fields [OF init(1)] init(2) show ?case
    by (cases a) (auto simp: bad_shape_def)
next
  case (set_N d n seed d')
  from set_N_frame [OF set_N(2)] set_N(3,4) show ?case by simp
next
  case (randomise_names d seed d')
  from randomise_names_frame [OF randomise_names(2)] randomise_names(3,4) show ?case by simp
qed

lemma rekey_values: "rekey m nv = Inr nv' \<Longrightarrow> snd ` set nv' \<subseteq> snd ` set nv"
proof -
  assume a: "rekey m nv = Inr nv'"
  then obtain kvs where kvs: "mapM (\<lambda>(n, v). case lookup m n of Inl e \<Rightarrow> Inl e
                                                | Inr n' \<Rightarrow> Inr (n', v)) nv = Inr kvs"
    and nv': "nv' = dict_of kvs"
    by (auto simp: rekey_def split: sum.splits)
  have "snd ` set kvs \<subseteq> snd ` set nv" using kvs
  proof (induction nv arbitrary: kvs)
    case Nil
    then show ?case by simp
  next
    case (Cons p nv)
    obtain n v where p: "p = (n, v)" by (cases p)
    from Cons.prems p obtain n' r where r: "lookup m n = Inr n'"
      "mapM (\<lambda>(n, v). case lookup m n of Inl e \<Rightarrow> Inl e | Inr n' \<Rightarrow> Inr (n', v)) nv = Inr r"
      "kvs = (n', v) # r"
      by (auto split: sum.splits)
    from Cons.IH [OF r(2)] r(3) p show ?case by auto
  qed
  with set_dict_of [of kvs] nv' show ?thesis by blast
qed

lemma randomise_names_values:
  assumes "randomise_names env d seed = (None, d')"
  shows "snd ` set (node_values d') \<subseteq> snd ` set (node_values d)"
proof -
  from assms obtain m nv where "rekey m (node_values d) = Inr nv" "node_values d' = nv"
    unfolding randomise_names_def Let_def by (auto split: sum.splits)
  with rekey_values [of m "node_values d" nv] show ?thesis by simp
qed

lemma reachable_node_values_sum:
  "reachable env d \<Longrightarrow> distinct_labels d \<Longrightarrow>
   \<forall>p \<in> set (node_values d). int (sum_list (map snd (snd p))) = N d"
proof (induction rule: reachable.induct)
  case (init a t col_values d)
  note ic = init_cases [OF init(1)] and fi = init_fields [OF init(1)]
  define d0 where "d0 = (fresh a t col_values)\<lparr>N := int (shape0 a)\<rparr>"
  from ic have cv: "count_values d0 = (None, d)" by (simp add: d0_def)
  from count_values_frame [OF cv] init(2) have dl: "distinct_labels d0"
    by (auto simp: distinct_labels_def)
  have nv: "node_values d0 = []" by (simp add: d0_def fresh_def Let_def)
  have s0: "sample d0 = a" "dstype d0 = t" by (simp_all add: d0_def fresh_def Let_def)
  show ?case
  proof (cases a)
    case (U8 rs)
    from count_values_sums [OF cv _ dl nv, of rs] s0 U8 fi show ?thesis
      by (simp add: shape0_def)
  next
    case (F32 rs)
    with ic have "t \<noteq> Categorical" by (auto simp: bad_shape_def)
    with cv s0 nv show ?thesis by (simp add: count_values_def)
  qed
next
  case (set_N d n seed d')
  note fr = set_N_frame [OF set_N(2)] and su = set_N_success [OF set_N(2)]
  from fr set_N(4) have dl: "distinct_labels d" by (simp add: distinct_labels_def)
  have dlr: "distinct_labels (resized d n)" using dl by (simp add: distinct_labels_def resized_eq)
  have nvr: "node_values (resized d n) = []" by (simp add: resized_eq)
  have key: "\<forall>p \<in> set (node_values d2). sum_list (map snd (snd p)) = nat n"
    if c: "count_values (resized d n) = (None, d2)" for d2
  proof (cases "dstype d = Categorical")
    case True
    from reachable_categorical_data [OF set_N(1) True] obtain rs where rs: "data d = U8 rs"
      by blast
    have "sample (resized d n) = U8 (take (nat n) rs)"
      by (simp add: resized_eq rs take_rows_def)
    moreover from su rs have "n \<le> int (length rs)" by (simp add: shape0_def)
    then have "nat n \<le> length rs" by linarith
    then have "length (take (nat n) rs) = nat n" by simp
    ultimately show ?thesis
      using count_values_sums [OF c _ dlr nvr, of "take (nat n) rs"] by simp
  next
    case False
    with c nvr show ?thesis by (simp add: count_values_def resized_eq)
  qed
  from set_N(2) have "\<forall>p \<in> set (node_values d'). sum_list (map snd (snd p)) = nat n"
  proof (cases rule: set_N_cases)
    case unpermuted
    then show ?thesis by (intro key)
  next
    case (permuted s d2 a)
    from key [OF permuted(6)] permuted(8) show ?thesis by simp
  qed simp_all
  moreover from su have "N d' = n" "0 \<le> n" by simp_all
  ultimately show ?case by simp
next
  case (randomise_names d seed d')
  from randomise_names_frame [OF randomise_names(2)] randomise_names(4)
  have dl: "distinct_labels d" "N d' = N d" by (simp_all add: distinct_labels_def)
  show ?case
  proof
    fix p assume "p \<in> set (node_values d')"
    then have "snd p \<in> snd ` set (node_values d')" by (rule imageI)
    with randomise_names_values [OF randomise_names(2)]
    have "snd p \<in> snd ` set (node_values d)" by blast
    then obtain q where "q \<in> set (node_values d)" "snd p = snd q" by (rule imageE)
    with randomise_names.IH [OF dl(1)] dl(2)
    show "int (sum_list (map snd (snd p))) = N d'" by simp
  qed
qed

subsection \<open>The matrix of counts\<close>

lemma int32_id: "c < 2 ^ 31 \<Longrightarrow> int32 c = int c"
proof -
  assume "c < 2 ^ 31"
  then have "int c < 2 ^ 31" by (metis of_nat_less_iff of_nat_numeral of_nat_power)
  moreover have "- (2 ^ 31) \<le> int c" by (rule order_trans [of _ 0]) simp_all
  ultimately have "signed_take_bit 31 (int c) = int c" by (rule signed_take_bit_int_eq_self [rotated])
  then show ?thesis by (simp add: int32_def signed_of_nat)
qed

lemma sum_list_update_int:
  "i < length xs \<Longrightarrow> sum_list (xs[i := x]) = sum_list xs - xs ! i + (x :: int)"
proof (induction xs arbitrary: i)
  case Nil
  then show ?case by simp
next
  case (Cons y ys)
  then show ?case by (cases i) simp_all
qed

lemma sum_list_concat_map: "sum_list (concat m) = sum_list (map sum_list m)"
  by (induction m) simp_all

lemma update_cell_total:
  assumes "i < length m" and "j < length (m ! i)"
  shows "sum_list (concat (m[i := (m ! i)[j := v]])) = sum_list (concat m) - m ! i ! j + (v :: int)"
proof -
  have "sum_list (concat (m[i := (m ! i)[j := v]]))
        = sum_list ((map sum_list m)[i := sum_list ((m ! i)[j := v])])"
    by (simp add: sum_list_concat_map map_update)
  also have "\<dots> = sum_list (map sum_list m) - sum_list (m ! i) + sum_list ((m ! i)[j := v])"
    using assms(1) by (simp add: sum_list_update_int)
  also have "sum_list ((m ! i)[j := v]) = sum_list (m ! i) - m ! i ! j + v"
    using assms(2) by (rule sum_list_update_int)
  finally show ?thesis by (simp add: sum_list_concat_map)
qed

lemma fill_total:
  assumes "fill m k ps rs cs = Inr m'" and "distinct cs" and "length m = k"
    and "\<forall>r \<in> set m. length r = length ps"
    and "\<forall>cv pc j. cv # pc \<in> set cs \<and> unat cv < k \<and> index_of ps pc = Some j
           \<longrightarrow> m ! unat cv ! j = 0"
  shows "sum_list (concat m') = sum_list (concat m) + (\<Sum>c\<leftarrow>cs. int32 (count_list rs c))"
  using assms
proof (induction cs arbitrary: m)
  case Nil
  then show ?case by simp
next
  case (Cons c cs)
  from Cons.prems(1) obtain cv pc j where c: "c = cv # pc" and i: "unat cv < k"
    and j: "index_of ps pc = Some j"
    and rest: "fill (m[unat cv := (m ! unat cv)[j := int32 (count_list rs c)]]) k ps rs cs = Inr m'"
    by (auto split: list.splits if_splits option.splits)
  define m1 where "m1 = m[unat cv := (m ! unat cv)[j := int32 (count_list rs c)]]"
  from index_of_Some [OF j] have jl: "j < length ps" "ps ! j = pc" by simp_all
  from i Cons.prems(3) have il: "unat cv < length m" by simp
  with Cons.prems(4) jl have jr: "j < length (m ! unat cv)" by simp
  have "cv # pc \<in> set (c # cs)" by (simp add: c)
  with Cons.prems(5) i j have zero: "m ! unat cv ! j = 0" by blast
  have tot: "sum_list (concat m1) = sum_list (concat m) + int32 (count_list rs c)"
    unfolding m1_def using update_cell_total [OF il jr] zero by simp
  have 3: "length m1 = k" using Cons.prems(3) by (simp add: m1_def)
  have 4: "\<forall>r \<in> set m1. length r = length ps"
  proof
    fix r assume "r \<in> set m1"
    then have "r \<in> insert ((m ! unat cv)[j := int32 (count_list rs c)]) (set m)"
      unfolding m1_def using set_update_subset_insert by fastforce
    with Cons.prems(4) il show "length r = length ps" by auto
  qed
  have 5: "\<forall>cv' pc' j'. cv' # pc' \<in> set cs \<and> unat cv' < k \<and> index_of ps pc' = Some j'
           \<longrightarrow> m1 ! unat cv' ! j' = 0"
  proof (intro allI impI)
    fix cv' pc' j'
    assume a: "cv' # pc' \<in> set cs \<and> unat cv' < k \<and> index_of ps pc' = Some j'"
    then have "cv' # pc' \<in> set (c # cs)" by simp
    with a Cons.prems(5) have old: "m ! unat cv' ! j' = 0" by blast
    from a Cons.prems(2) c have ne: "cv' # pc' \<noteq> cv # pc" by auto
    from a index_of_Some [of ps pc' j'] have j': "ps ! j' = pc'" by simp
    have "\<not> (unat cv' = unat cv \<and> j' = j)"
    proof
      assume "unat cv' = unat cv \<and> j' = j"
      then have "cv' = cv" "pc' = pc" using j' jl by (simp_all add: word_unat_eq_iff)
      with ne show False by simp
    qed
    then show "m1 ! unat cv' ! j' = 0"
      unfolding m1_def using old il by (auto simp: nth_list_update)
  qed
  from Cons.prems(2) have 2: "distinct cs" by simp
  from Cons.IH [OF rest [folded m1_def] 2 3 4 5] tot show ?case by simp
qed

lemma sum_unique_rows: "(\<Sum>c\<leftarrow>unique_rows rs. int (count_list rs c)) = int (length rs)"
proof -
  have "(\<Sum>c\<leftarrow>unique_rows rs. count_list rs c) = sum (count_list rs) (set (unique_rows rs))"
    by (rule sum_list_distinct_conv_sum_set) (simp add: unique_rows_def)
  also have "\<dots> = length rs"
    by (rule sum_count_set) (simp_all add: unique_rows_def)
  finally have "int (\<Sum>c\<leftarrow>unique_rows rs. count_list rs c) = int (length rs)" by simp
  then show ?thesis by (simp add: sum_list_of_nat [symmetric] o_def)
qed

lemma count_list_le: "count_list xs x \<le> length xs"
  by (rule count_le_length)

lemma pick_cols_U8:
  assumes "pick_cols js a = Inr (U8 rs)"
  obtains rows where "a = U8 rows" "rs = map (\<lambda>r. map (\<lambda>j. r ! j) js) rows"
    "\<forall>j \<in> set js. j < row_len rows"
  using assms
  by (cases a) (auto simp: pick_cols_def cols_of_def split: if_splits sum.splits)

lemma multiple_Inr:
  assumes "multiple d node ps js vr = Inr (counts, maxcol, rowval, colval)"
  obtains rs where "pick_cols js (sample d) = Inr (U8 rs)" "rs \<noteq> []"
    "fill (zeros (length (the (map_of (node_values d) node)))
                 (length (unique_rows (map tl (unique_rows rs)))))
          (length (the (map_of (node_values d) node)))
          (unique_rows (map tl (unique_rows rs))) rs (unique_rows rs) = Inr counts"
    "maxcol = maxcol_of d ps"
proof -
  from assms obtain a where a: "pick_cols js (sample d) = Inr a"
    by (cases "pick_cols js (sample d)") (auto simp: multiple_def)
  with assms obtain rs where rs: "a = U8 rs" by (cases a) (auto simp: multiple_def)
  with assms a have ne: "rs \<noteq> []" by (auto simp: multiple_def)
  from assms a rs ne have "fill (zeros (length (the (map_of (node_values d) node)))
                 (length (unique_rows (map tl (unique_rows rs)))))
          (length (the (map_of (node_values d) node)))
          (unique_rows (map tl (unique_rows rs))) rs (unique_rows rs) = Inr counts
        \<and> maxcol = maxcol_of d ps"
    by (auto simp: multiple_def Let_def split: sum.splits if_splits)
  with a rs ne that show ?thesis by blast
qed

lemma marginals_Inr:
  assumes "marginals d node parents vr = Inr r"
  obtains (single) "\<not> bad_query d (query_nodes node parents)"
      "length (query_nodes node parents) = 1" "r = single d node vr"
  | (multiple) js where "\<not> bad_query d (query_nodes node parents)"
      "length (query_nodes node parents) \<noteq> 1"
      "mapM (col_index d) (query_nodes node parents) = Inr js"
      "multiple d node (tl (query_nodes node parents)) js vr = Inr r"
  using assms
  by (auto simp: marginals_def Let_def split: if_splits sum.splits)

lemma single_total:
  assumes "(node, nv) \<in> set (node_values d)" and "map_of (node_values d) node = Some nv"
    and "single d node vr = (counts, maxcol, rowval, colval)"
  shows "sum_list (concat counts) = int (sum_list (map snd nv))"
proof -
  from assms(2,3) have "counts = map (\<lambda>c. [int c]) (map snd nv)"
    by (simp add: single_def Let_def dict_values_def)
  then show ?thesis by (simp add: o_def sum_list_of_nat [symmetric])
qed

lemma zeros_total: "sum_list (concat (zeros k w)) = 0"
  by (simp add: zeros_def sum_list_concat_map sum_list_replicate)

lemma zeros_cells:
  fixes cs :: "8 word list list"
  shows "\<forall>cv pc j. cv # pc \<in> set cs \<and> unat cv < k \<and> index_of ps pc = Some j
     \<longrightarrow> zeros k (length ps) ! unat cv ! j = 0"
proof (intro allI impI)
  fix cv :: "8 word" and pc :: "8 word list" and j
  assume a: "cv # pc \<in> set cs \<and> unat cv < k \<and> index_of ps pc = Some j"
  with index_of_Some [of ps pc j] have "j < length ps" by simp
  with a show "zeros k (length ps) ! unat cv ! j = 0" by (simp add: zeros_def)
qed

lemma multiple_total:
  assumes "multiple d node ps js vr = Inr (counts, maxcol, rowval, colval)"
    and "shape0 (sample d) < 2 ^ 31"
  shows "sum_list (concat counts) = int (shape0 (sample d))"
proof -
  from assms(1) obtain rs where pc: "pick_cols js (sample d) = Inr (U8 rs)"
    and f: "fill (zeros (length (the (map_of (node_values d) node)))
                 (length (unique_rows (map tl (unique_rows rs)))))
          (length (the (map_of (node_values d) node)))
          (unique_rows (map tl (unique_rows rs))) rs (unique_rows rs) = Inr counts"
    by (rule multiple_Inr)
  from pc have len: "length rs = shape0 (sample d)"
    by (rule pick_cols_U8) (simp add: shape0_def)
  have small: "int32 (count_list rs c) = int (count_list rs c)" for c
    using count_le_length [of rs c] assms(2) len by (intro int32_id) simp
  have "sum_list (concat counts)
        = sum_list (concat (zeros (length (the (map_of (node_values d) node)))
                 (length (unique_rows (map tl (unique_rows rs))))))
          + (\<Sum>c\<leftarrow>unique_rows rs. int32 (count_list rs c))"
  proof (rule fill_total [OF f])
    show "distinct (unique_rows rs)" by (simp add: unique_rows_def)
    show "length (zeros (length (the (map_of (node_values d) node)))
                 (length (unique_rows (map tl (unique_rows rs)))))
          = length (the (map_of (node_values d) node))" by (simp add: zeros_def)
    show "\<forall>r \<in> set (zeros (length (the (map_of (node_values d) node)))
                 (length (unique_rows (map tl (unique_rows rs))))).
            length r = length (unique_rows (map tl (unique_rows rs)))"
      by (simp add: zeros_def)
  qed (rule zeros_cells)
  also have "\<dots> = (\<Sum>c\<leftarrow>unique_rows rs. int (count_list rs c))"
    by (simp add: zeros_total small)
  finally show ?thesis by (simp add: sum_unique_rows len)
qed

lemma ex_set_N_4: "set_N ex_env ex_d 4 (Some 3) = (None, ex_d4)"
  by code_simp

lemma ex_reachable_4: "reachable ex_env ex_d4"
  by (rule reachable.set_N [OF reachable.init [OF ex_init] ex_set_N_4])

subsection \<open>Equal labels, and more rows than a cell can count\<close>

lemma row_len_replicate: "0 < n \<Longrightarrow> row_len (replicate n r) = length r"
  by (cases n) (simp_all add: row_len_def)

lemma column_replicate: "column j (replicate n r) = replicate n (r ! j)"
  by (simp add: column_def)

lemma count_list_replicate: "count_list (replicate n x) y = (if x = y then n else 0)"
  by (induction n) auto

lemma bincount_zeros: "0 < n \<Longrightarrow> bincount (replicate n 0) = [n]"
  by (simp add: bincount_def count_list_replicate)

lemma remdups_replicate_eq: "0 < n \<Longrightarrow> remdups (replicate n r) = [r]"
proof (induction n)
  case (Suc n)
  then show ?case by (cases n) auto
qed simp

lemma unique_rows_replicate: "0 < n \<Longrightarrow> unique_rows (replicate n r) = [r]"
  by (simp add: unique_rows_def remdups_replicate_eq)

lemma big_counts:
  assumes "0 < n" and "sample d = U8 (replicate n [0, 0])"
    and "categories d = Some [[''a''], [''b'']]" and "nodes d = [''A'', ''B'']"
  shows "count_loop d [0, 1]
         = (None, d\<lparr>node_values := AList.update ''B'' [(''b'', n)]
                       (AList.update ''A'' [(''a'', n)] (node_values d))\<rparr>)"
  using assms
  by (simp add: node_counts_def column_replicate bincount_zeros label_counts_def
      dict_of_def keys_def)

lemma big_init:
  fixes env :: "'f env"
  assumes "2 \<le> n"
  shows "NumPy_init env (U8 (replicate n [0, 0])) Categorical ex_big_col_values
         = Inr \<lparr>data = U8 (replicate n [0, 0]), sample = U8 (replicate n [0, 0]),
                nodes = [''A'', ''B''], categories = Some [[''a''], [''b'']],
                order = [0, 1], ext_to_orig = [(''A'', ''A''), (''B'', ''B'')],
                orig_to_ext = [(''A'', ''A''), (''B'', ''B'')], N = int n,
                node_types = [(''A'', Category), (''B'', Category)],
                dstype = Categorical,
                node_values = [(''A'', [(''a'', n)]), (''B'', [(''b'', n)])]\<rparr>"
proof -
  from assms have n: "0 < n" by simp
  have f: "fresh (U8 (replicate n [0, 0])) Categorical ex_big_col_values
           = \<lparr>data = U8 (replicate n [0, 0]), sample = U8 (replicate n [0, 0]),
                nodes = [''A'', ''B''], categories = Some [[''a''], [''b'']],
                order = [0, 1], ext_to_orig = [(''A'', ''A''), (''B'', ''B'')],
                orig_to_ext = [(''A'', ''A''), (''B'', ''B'')], N = 0,
                node_types = [(''A'', Category), (''B'', Category)],
                dstype = Categorical, node_values = []\<rparr>"
    by (simp add: fresh_def ex_big_col_values_def keys_def np_array_def strip_nul_def
        numeral_2_eq_2)
  have u: "[0 ..< 2] = [0, 1]" by (simp add: numeral_2_eq_2)
  define d0 :: "'f numpy"
    where "d0 = fresh (U8 (replicate n [0, 0])) Categorical ex_big_col_values"
  define d1 where "d1 = resized d0 (int n)"
  have d1: "sample d1 = U8 (replicate n [0, 0])" "categories d1 = Some [[''a''], [''b'']]"
    "nodes d1 = [''A'', ''B'']" "dstype d1 = Categorical" "node_values d1 = []"
    by (simp_all add: d1_def d0_def f resized_def shape0_def)
  have "count_values d1 = count_loop d1 [0, 1]"
    using n by (simp add: count_values_def d1 shape1_def row_len_replicate u)
  also have "\<dots> = (None, d1\<lparr>node_values := AList.update ''B'' [(''b'', n)]
                       (AList.update ''A'' [(''a'', n)] (node_values d1))\<rparr>)"
    by (rule big_counts [OF n d1(1,2,3)])
  finally have cv: "count_values (resized d0 (int n))
                    = (None, d1\<lparr>node_values := [(''A'', [(''a'', n)]), (''B'', [(''b'', n)])]\<rparr>)"
    unfolding d1(5) by (simp add: d1_def)
  have s: "set_N env d0 (int n) None
           = (None, d1\<lparr>node_values := [(''A'', [(''a'', n)]), (''B'', [(''b'', n)])]\<rparr>)"
  proof -
    have "shape0 (data d0) = n" by (simp add: d0_def f shape0_def)
    with assms show ?thesis by (simp add: set_N_def bad_seed_def cv)
  qed
  have b: "\<not> bad_col_values Categorical ex_big_col_values"
    "\<not> bad_shape (U8 (replicate n [0, 0])) Categorical (length ex_big_col_values)"
    using assms n
    by (simp_all add: bad_col_values_def bad_shape_def dict_values_def ex_big_col_values_def
        shape0_def shape1_def row_len_replicate)
  from b s show ?thesis
    by (simp add: NumPy_init_def d0_def [symmetric] shape0_def)
      (simp add: d1_def d0_def f resized_def shape0_def)
qed

lemma big_marginals:
  assumes "0 < n" and "sample d = U8 (replicate n [0, 0])"
    and "nodes d = [''A'', ''B'']"
    and "ext_to_orig d = [(''A'', ''A''), (''B'', ''B'')]"
    and "node_values d = [(''A'', [(''a'', n)]), (''B'', [(''b'', n)])]"
  shows "marginals d ''A'' [(''A'', [''B''])] False = Inr ([[int32 n]], 1, None, None)"
  using assms
  by (simp add: marginals_def query_nodes_def bad_query_def keys_def col_index_def lookup_def
      multiple_def pick_cols_def cols_of_def pick_def unique_rows_replicate zeros_def
      maxcol_of_def count_list_replicate Let_def row_len_replicate)
    (simp add: unique_rows_def count_list_replicate maxcol_of_def keys_def)

text \<open>
  C1. The claim fails on two kinds of data set. When two labels of a variable are the
  same string, \<open>set_N\<close> files their counts under one key, and the later count replaces
  the earlier: with the labels \<open>x\<close>, \<open>x\<close> for the codes 0 and 1 of \<open>A\<close> and three rows,
  the counts of \<open>A\<close> sum to 2. And the cells of the matrix of a node with parents are
  \<open>int32\<close>: with \<open>2 ^ 31\<close> equal rows the one cell holds \<open>- 2 ^ 31\<close>.
\<close>

theorem counts_sum_counterexample:
  "NumPy_init ex_env ex_dup_data Categorical ex_dup_col_values = Inr ex_dup
   \<and> N ex_dup = 3
   \<and> marginals ex_dup ''A'' [] False = Inr ([[2]], 1, None, None)
   \<and> NumPy_init ex_env (U8 ex_big_rows) Categorical ex_big_col_values = Inr ex_big
   \<and> N ex_big = 2147483648
   \<and> marginals ex_big ''A'' [(''A'', [''B''])] False = Inr ([[- 2147483648]], 1, None, None)"
proof -
  have d: "NumPy_init ex_env ex_dup_data Categorical ex_dup_col_values = Inr ex_dup
           \<and> N ex_dup = 3 \<and> marginals ex_dup ''A'' [] False = Inr ([[2]], 1, None, None)"
    by code_simp
  have i: "int32 2147483648 = - 2147483648" by (simp add: int32_def)
  have 1: "NumPy_init ex_env (U8 ex_big_rows) Categorical ex_big_col_values = Inr ex_big"
    unfolding ex_big_rows_def ex_big_def by (subst big_init) simp_all
  have 2: "marginals ex_big ''A'' [(''A'', [''B''])] False
           = Inr ([[int32 2147483648]], 1, None, None)"
    by (rule big_marginals) (simp_all add: ex_big_def ex_big_rows_def)
  have 3: "N ex_big = 2147483648" by (simp add: ex_big_def)
  from d 1 2 3 i show ?thesis by simp
qed

text \<open>
  C1, as the code has it. On a categorical data set whose recorded labels are distinct
  within each variable and whose working sample has fewer than \<open>2 ^ 31\<close> rows, the entries
  of the counts matrix that \<open>marginals\<close> returns sum to the working sample size \<open>N\<close>, for
  one variable as for a variable with parents. The data set is in any state the
  constructor, \<open>set_N\<close> and \<open>randomise_names\<close> lead to, and the permutation that
  \<open>numpy\<close> gives is taken to be one.
\<close>

theorem counts_sum_to_N:
  assumes "reachable env d" and "permutation_ok env" and "distinct_labels d"
    and "N d < 2 ^ 31"
    and "marginals d node parents values_reqd = Inr (counts, maxcol, rowval, colval)"
  shows "sum_list (concat counts) = N d"
  using assms(5)
proof (cases rule: marginals_Inr)
  case single
  then obtain x where q: "query_nodes node parents = [x]"
    by (cases "query_nodes node parents") auto
  then have "x = node" by (auto simp: query_nodes_def split: option.splits)
  with single(1) q have "node \<in> fst ` set (node_values d)"
    by (simp add: bad_query_def keys_def)
  then obtain nv where nv: "map_of (node_values d) node = Some nv"
    by (cases "map_of (node_values d) node") (auto simp: map_of_eq_None_iff)
  then have m: "(node, nv) \<in> set (node_values d)" by (rule map_of_SomeD)
  with reachable_node_values_sum [OF assms(1,3)]
  have "int (sum_list (map snd nv)) = N d" by fastforce
  with single_total [OF m nv single(3) [symmetric]] show ?thesis by simp
next
  case (multiple js)
  from reachable_sample_rows [OF assms(1,2)] assms(4)
  have n: "int (shape0 (sample d)) = N d" "shape0 (sample d) < 2 ^ 31" by simp_all
  from multiple_total [OF multiple(4) n(2)] n(1) show ?thesis by simp
qed

theorem counts_sum_to_N_witness:
  "reachable ex_env ex_d4 \<and> permutation_ok ex_env \<and> distinct_labels ex_d4 \<and> N ex_d4 < 2 ^ 31
   \<and> marginals ex_d4 ''A'' [(''A'', [''B''])] True
       = Inr ([[1, 1], [1, 1]], 2, Some [''a0'', ''a1'', ''a2''],
              Some [[(''B'', ''b1'')], [(''B'', ''b0'')]])
   \<and> sum_list (concat [[1, 1], [1, 1]]) = N ex_d4"
proof -
  have l: "distinct_labels ex_d4" by (simp add: distinct_labels_def ex_d4_def ex_d_def)
  have n: "N ex_d4 < 2 ^ 31" by (simp add: ex_d4_def)
  have m: "marginals ex_d4 ''A'' [(''A'', [''B''])] True
       = Inr ([[1, 1], [1, 1]], 2, Some [''a0'', ''a1'', ''a2''],
              Some [[(''B'', ''b1'')], [(''B'', ''b0'')]])"
    by code_simp
  from counts_sum_to_N [OF ex_reachable_4 ex_permutation_ok l n m]
    ex_reachable_4 ex_permutation_ok l n m
  show ?thesis by simp
qed

subsection \<open>The cells of the matrix of counts\<close>

lemma fill_ConsE:
  assumes "fill m k ps rs (c # cs) = Inr m'"
  obtains cv pc j where "c = cv # pc" "unat cv < k" "index_of ps pc = Some j"
    "fill (m[unat cv := (m ! unat cv)[j := int32 (count_list rs c)]]) k ps rs cs = Inr m'"
  using assms by (auto split: list.splits if_splits option.splits)

lemma fill_shape:
  "fill m k ps rs cs = Inr m' \<Longrightarrow> length m' = length m"
proof (induction cs arbitrary: m)
  case Nil
  then show ?case by simp
next
  case (Cons c cs)
  from Cons.prems obtain cv :: "8 word" and j where
    "fill (m[unat cv := (m ! unat cv)[j := int32 (count_list rs c)]]) k ps rs cs = Inr m'"
    by (rule fill_ConsE) blast
  from Cons.IH [OF this] show ?case by simp
qed

lemma update_cell_rows:
  assumes "\<forall>r \<in> set m. length r = w"
  shows "\<forall>r \<in> set (m[i := (m ! i)[j := v]]). length r = w"
proof (cases "i < length m")
  case True
  show ?thesis
  proof
    fix r assume "r \<in> set (m[i := (m ! i)[j := v]])"
    then have "r \<in> insert ((m ! i)[j := v]) (set m)"
      using set_update_subset_insert by fastforce
    with assms True show "length r = w" by auto
  qed
next
  case False
  then have "length m \<le> i" by simp
  then have "m[i := (m ! i)[j := v]] = m" by (rule list_update_beyond)
  with assms show ?thesis by (simp only:)
qed

lemma fill_rows:
  "fill m k ps rs cs = Inr m' \<Longrightarrow> \<forall>r \<in> set m. length r = w \<Longrightarrow> \<forall>r \<in> set m'. length r = w"
proof (induction cs arbitrary: m)
  case Nil
  then show ?case by simp
next
  case (Cons c cs)
  from Cons.prems(1) obtain cv :: "8 word" and j where
    r: "fill (m[unat cv := (m ! unat cv)[j := int32 (count_list rs c)]]) k ps rs cs = Inr m'"
    by (rule fill_ConsE) blast
  from Cons.IH [OF r update_cell_rows [OF Cons.prems(2)]] show ?case .
qed

lemma fill_in_range:
  "fill m k ps rs cs = Inr m' \<Longrightarrow> cv # pc \<in> set cs \<Longrightarrow> unat cv < k"
proof (induction cs arbitrary: m)
  case Nil
  then show ?case by simp
next
  case (Cons c cs)
  from Cons.prems(1) obtain cv0 pc0 j where c: "c = cv0 # pc0" "unat cv0 < k"
    and r: "fill (m[unat cv0 := (m ! unat cv0)[j := int32 (count_list rs c)]]) k ps rs cs = Inr m'"
    by (rule fill_ConsE) blast
  show ?case
  proof (cases "cv # pc = c")
    case True
    with c show ?thesis by simp
  next
    case False
    with Cons.prems(2) have "cv # pc \<in> set cs" by simp
    from Cons.IH [OF r this] show ?thesis .
  qed
qed

lemma fill_untouched:
  assumes "fill m k ps rs cs = Inr m'" and "length m = k"
    and "\<forall>cv pc. cv # pc \<in> set cs \<longrightarrow> \<not> (unat cv = i \<and> index_of ps pc = Some j)"
  shows "m' ! i ! j = m ! i ! j"
  using assms
proof (induction cs arbitrary: m)
  case Nil
  then show ?case by simp
next
  case (Cons c cs)
  from Cons.prems(1) obtain cv0 pc0 j0 where c: "c = cv0 # pc0" "unat cv0 < k"
    "index_of ps pc0 = Some j0"
    and r: "fill (m[unat cv0 := (m ! unat cv0)[j0 := int32 (count_list rs c)]]) k ps rs cs = Inr m'"
    by (rule fill_ConsE) blast
  define m1 where "m1 = m[unat cv0 := (m ! unat cv0)[j0 := int32 (count_list rs c)]]"
  have "cv0 # pc0 \<in> set (c # cs)" by (simp add: c)
  with Cons.prems(3) c have ne: "\<not> (unat cv0 = i \<and> j0 = j)" by blast
  have same: "m1 ! i ! j = m ! i ! j"
  proof (cases "unat cv0 = i")
    case True
    with ne have "j0 \<noteq> j" by simp
    with True c(2) Cons.prems(2) show ?thesis by (simp add: m1_def)
  next
    case False
    then show ?thesis by (simp add: m1_def)
  qed
  have "m' ! i ! j = m1 ! i ! j"
  proof (rule Cons.IH [OF r [folded m1_def]])
    show "length m1 = k" using Cons.prems(2) by (simp add: m1_def)
    show "\<forall>cv pc. cv # pc \<in> set cs \<longrightarrow> \<not> (unat cv = i \<and> index_of ps pc = Some j)"
      using Cons.prems(3) by simp
  qed
  with same show ?case by simp
qed

lemma fill_written:
  assumes "fill m k ps rs cs = Inr m'" and "length m = k"
    and "\<forall>r \<in> set m. length r = length ps"
    and "cv # pc \<in> set cs" and "index_of ps pc = Some j"
  shows "m' ! unat cv ! j = int32 (count_list rs (cv # pc))"
  using assms
proof (induction cs arbitrary: m)
  case Nil
  then show ?case by simp
next
  case (Cons c cs)
  from Cons.prems(1) obtain cv0 pc0 j0 where c: "c = cv0 # pc0" "unat cv0 < k"
    "index_of ps pc0 = Some j0"
    and r: "fill (m[unat cv0 := (m ! unat cv0)[j0 := int32 (count_list rs c)]]) k ps rs cs = Inr m'"
    by (rule fill_ConsE) blast
  define m1 where "m1 = m[unat cv0 := (m ! unat cv0)[j0 := int32 (count_list rs c)]]"
  have l1: "length m1 = k" using Cons.prems(2) by (simp add: m1_def)
  have w1: "\<forall>r \<in> set m1. length r = length ps"
    unfolding m1_def by (rule update_cell_rows [OF Cons.prems(3)])
  show ?case
  proof (cases "cv # pc \<in> set cs")
    case True
    from Cons.IH [OF r [folded m1_def] l1 w1 True Cons.prems(5)] show ?thesis .
  next
    case False
    with Cons.prems(4) have e: "cv0 = cv" "pc0 = pc" using c by simp_all
    with c(3) Cons.prems(5) have j: "j0 = j" by simp
    from index_of_Some [OF Cons.prems(5)] have jl: "j < length ps" "ps ! j = pc" by simp_all
    have "\<forall>cv' pc'. cv' # pc' \<in> set cs \<longrightarrow> \<not> (unat cv' = unat cv \<and> index_of ps pc' = Some j)"
    proof (intro allI impI notI)
      fix cv' :: "8 word" and pc'
      assume a: "cv' # pc' \<in> set cs" and b: "unat cv' = unat cv \<and> index_of ps pc' = Some j"
      from b index_of_Some [of ps pc' j] jl have "cv' = cv" "pc' = pc"
        by (simp_all add: word_unat_eq_iff)
      with a False show False by simp
    qed
    from fill_untouched [OF r [folded m1_def] l1 this]
    have "m' ! unat cv ! j = m1 ! unat cv ! j" .
    also have "\<dots> = int32 (count_list rs c)"
      using e j c(2) Cons.prems(2,3) jl(1) by (simp add: m1_def)
    finally show ?thesis by (simp add: c e)
  qed
qed

lemma foldl_times:
  "foldl (\<lambda>m p. m * f p) a ps = a * prod_list (map f ps)" for a :: nat
  by (induction ps arbitrary: a) (simp_all add: mult.assoc)

lemma maxcol_of_prod:
  "maxcol_of d ps = prod_list (map (\<lambda>p. length (the (map_of (node_values d) p))) ps)"
  by (simp add: maxcol_of_def foldl_times keys_def)

lemma multiple_colval:
  assumes "multiple d node ps js vr = Inr (counts, maxcol, rowval, Some cvs)"
    and "pick_cols js (sample d) = Inr (U8 rs)"
  shows "length cvs = length (unique_rows (map tl (unique_rows rs)))"
proof -
  from assms obtain rv where "labels d js (unique_rows (map tl (unique_rows rs))) = Inr (rv, cvs)"
    by (auto simp: multiple_def Let_def split: sum.splits if_splits)
  then show ?thesis
    by (auto simp: labels_def split: sum.splits dest: mapM_length)
qed

text \<open>
  C2. maxcol is computed as the product over the parents of \<open>len(self.node_values[p])\<close>,
  which the comment above the loop calls the number of states of the parent.
  \<open>node_values\<close> comes from \<open>numpy.bincount\<close> of the sample and has an entry for each code
  from 0 to the highest code in the sample: for the parent \<open>A\<close> with four states, of which
  the codes 0 and 2 occur in the sample of three rows, maxcol is 3, neither the number of
  states of \<open>A\<close> nor the number of its values in the sample.
\<close>

theorem maxcol_undercounts:
  "NumPy_init ex_env ex_data2 Categorical ex_col_values2
     = Inr (ex_e3\<lparr>sample := ex_data2, N := 5,
                  node_values := [(''A'', [(''a0'', 2), (''a1'', 1), (''a2'', 1), (''a3'', 1)]),
                                  (''B'', [(''b0'', 2), (''b1'', 3)])]\<rparr>)
   \<and> set_N ex_env
        (ex_e3\<lparr>sample := ex_data2, N := 5,
                node_values := [(''A'', [(''a0'', 2), (''a1'', 1), (''a2'', 1), (''a3'', 1)]),
                                (''B'', [(''b0'', 2), (''b1'', 3)])]\<rparr>) 3 None
     = (None, ex_e3)
   \<and> marginals ex_e3 ''B'' [(''B'', [''A''])] False = Inr ([[1, 0], [1, 1]], 3, None, None)
   \<and> map length (the (categories ex_e3)) = [4, 2]
   \<and> card (set (column 0 [[0, 0], [2, 1], [0, 1 :: 8 word]])) = 2"
  by code_simp

text \<open>
  The columns of the counts matrix. For a node with at least one parent, the columns are
  the combinations of parent values that occur in the sample, each once, in lexicographic
  order, and no other combination of the cross-product: every row of the matrix has one
  entry for each of them, the entry in row \<open>i\<close> and column \<open>j\<close> is the number of rows of
  the sample with the child code \<open>i\<close> and the \<open>j\<close>-th combination, every column has a
  positive entry, and colval, when asked for, has one label for each column.
\<close>

lemma columns_are_observed_combinations:
  assumes "marginals d node parents values_reqd = Inr (counts, maxcol, rowval, colval)"
    and "map_of parents node = Some ps" and "ps \<noteq> []"
  shows "\<exists>rows js sub P.
           sample d = U8 rows
           \<and> mapM (col_index d) (node # ps) = Inr js
           \<and> sub = map (\<lambda>r. map (\<lambda>j. r ! j) js) rows
           \<and> sorted P \<and> distinct P \<and> set P = tl ` set sub
           \<and> length P = card (tl ` set sub)
           \<and> (\<forall>r \<in> set counts. length r = length P)
           \<and> (\<forall>cv j. unat cv < length counts \<and> j < length P
                 \<longrightarrow> counts ! unat cv ! j = int32 (count_list sub (cv # P ! j)))
           \<and> (length rows < 2 ^ 31
                 \<longrightarrow> (\<forall>j < length P. \<exists>i < length counts. 0 < counts ! i ! j))
           \<and> (\<forall>cvs. colval = Some cvs \<longrightarrow> length cvs = length P)"
proof -
  have q: "query_nodes node parents = node # ps" using assms(2) by (simp add: query_nodes_def)
  with assms(3) have "length (query_nodes node parents) \<noteq> 1" by simp
  with assms(1) q obtain js where js: "mapM (col_index d) (node # ps) = Inr js"
    and mu: "multiple d node ps js values_reqd = Inr (counts, maxcol, rowval, colval)"
    by (cases rule: marginals_Inr) simp_all
  define k where "k = length (the (map_of (node_values d) node))"
  from mu obtain sub where pc: "pick_cols js (sample d) = Inr (U8 sub)" and ne: "sub \<noteq> []"
    and f: "fill (zeros k (length (unique_rows (map tl (unique_rows sub))))) k
              (unique_rows (map tl (unique_rows sub))) sub (unique_rows sub) = Inr counts"
    and mc: "maxcol = maxcol_of d ps"
    unfolding k_def by (rule multiple_Inr)
  define P where "P = unique_rows (map tl (unique_rows sub))"
  note f = f [folded P_def]
  from pc obtain rows where rows: "sample d = U8 rows"
    "sub = map (\<lambda>r. map (\<lambda>j. r ! j) js) rows"
    by (rule pick_cols_U8)
  have P1: "sorted P" "distinct P" by (simp_all add: P_def unique_rows_def)
  have P2: "set P = tl ` set sub" by (simp add: P_def unique_rows_def)
  have P3: "length P = card (tl ` set sub)"
    using distinct_card [OF P1(2)] P2 by simp
  have lc: "length counts = k" using fill_shape [OF f] by (simp add: zeros_def)
  have zl: "length (zeros k (length P)) = k" by (simp add: zeros_def)
  have zr: "\<forall>r \<in> set (zeros k (length P)). length r = length P" by (simp add: zeros_def)
  have rc: "\<forall>r \<in> set counts. length r = length P" by (rule fill_rows [OF f zr])
  have cells: "counts ! unat cv ! j = int32 (count_list sub (cv # P ! j))"
    if a: "unat cv < length counts" "j < length P" for cv :: "8 word" and j
  proof (cases "cv # P ! j \<in> set sub")
    case True
    then have "cv # P ! j \<in> set (unique_rows sub)" by (simp add: unique_rows_def)
    from fill_written [OF f zl zr this index_of_nth [OF P1(2) a(2)]] show ?thesis .
  next
    case False
    have "\<forall>cv' pc'. cv' # pc' \<in> set (unique_rows sub)
            \<longrightarrow> \<not> (unat cv' = unat cv \<and> index_of P pc' = Some j)"
    proof (intro allI impI notI)
      fix cv' :: "8 word" and pc'
      assume m: "cv' # pc' \<in> set (unique_rows sub)"
        and e: "unat cv' = unat cv \<and> index_of P pc' = Some j"
      from e index_of_Some [of P pc' j] have "cv' = cv" "pc' = P ! j"
        by (simp_all add: word_unat_eq_iff)
      with m False show False by (simp add: unique_rows_def)
    qed
    from fill_untouched [OF f zl this] a lc
    have "counts ! unat cv ! j = 0" by (simp add: zeros_def)
    moreover from False have "count_list sub (cv # P ! j) = 0" by (simp add: count_list_0_iff)
    ultimately show ?thesis by (simp add: int32_def)
  qed
  have pos: "\<exists>i < length counts. 0 < counts ! i ! j"
    if small: "length rows < 2 ^ 31" and j: "j < length P" for j
  proof -
    from j have "P ! j \<in> set P" by simp
    with P2 obtain r where r: "r \<in> set sub" "tl r = P ! j" by auto
    from r(1) rows(2) have "length r = length js" by auto
    with mapM_length [OF js] have "r \<noteq> []" by auto
    with r(2) obtain cv where cv: "r = cv # P ! j" by (cases r) auto
    from r(1) cv have "cv # P ! j \<in> set (unique_rows sub)" by (simp add: unique_rows_def)
    from fill_in_range [OF f this] lc have i: "unat cv < length counts" by simp
    have "count_list sub r \<noteq> 0" using r(1) by (simp add: count_list_0_iff)
    then have "0 < count_list sub r" by simp
    moreover have "count_list sub r < 2 ^ 31"
      using count_le_length [of sub r] small rows(2) by simp
    ultimately have "0 < int32 (count_list sub r)" by (simp add: int32_id)
    with cells [OF i j] cv have "0 < counts ! unat cv ! j" by simp
    with i show ?thesis by blast
  qed
  have cl: "length cvs = length P" if "colval = Some cvs" for cvs
    using multiple_colval [OF mu [unfolded that] pc] by (simp add: P_def)
  have c1: "\<forall>cv j. unat cv < length counts \<and> j < length P
                 \<longrightarrow> counts ! unat cv ! j = int32 (count_list sub (cv # P ! j))"
    using cells by blast
  have c2: "length rows < 2 ^ 31
                 \<longrightarrow> (\<forall>j < length P. \<exists>i < length counts. 0 < counts ! i ! j)"
    using pos by blast
  have c3: "\<forall>cvs. colval = Some cvs \<longrightarrow> length cvs = length P"
    using cl by blast
  show ?thesis
    apply (rule exI [of _ rows])
    apply (rule exI [of _ js])
    apply (rule exI [of _ sub])
    apply (rule exI [of _ P])
    apply (intro conjI)
    apply (rule rows(1))
    apply (rule js)
    apply (rule rows(2))
    apply (rule P1(1))
    apply (rule P1(2))
    apply (rule P2)
    apply (rule P3)
    apply (rule rc)
    apply (rule c1)
    apply (rule c2)
    apply (rule c3)
    done
qed

subsection \<open>What set_N and randomise_names leave in the object\<close>

lemma node_counts_name: "node_counts d j = Inr (n, vc) \<Longrightarrow> j < length (nodes d) \<and> n = nodes d ! j"
  by (auto simp: node_counts_def split: ndarray.splits option.splits if_splits sum.splits)

lemma count_loop_keys:
  "count_loop d js = (None, d') \<Longrightarrow>
   set (keys (node_values d')) = set (keys (node_values d)) \<union> (\<lambda>j. nodes d ! j) ` set js"
proof (induction js arbitrary: d)
  case Nil
  then show ?case by simp
next
  case (Cons j js)
  from Cons.prems obtain n vc where nc: "node_counts d j = Inr (n, vc)"
    and r: "count_loop (d\<lparr>node_values := AList.update n vc (node_values d)\<rparr>) js = (None, d')"
    by (auto split: sum.splits)
  from node_counts_name [OF nc] have n: "n = nodes d ! j" by simp
  from Cons.IH [OF r] n show ?case
    by (auto simp: keys_def dom_update)
qed

lemma row_len_take: "0 < m \<Longrightarrow> row_len (take m rs) = row_len rs"
  by (cases rs; cases m) (simp_all add: row_len_def)

lemma shape1_take_rows: "0 < m \<Longrightarrow> shape1 (take_rows m a) = shape1 a"
  by (cases a) (simp_all add: shape1_def take_rows_def row_len_take)

lemma count_values_keys:
  assumes "count_values d1 = (None, d2)" and "node_values d1 = []"
    and "shape1 (sample d1) = length (nodes d1)"
  shows "set (keys (node_values d2))
         = (if dstype d1 = Categorical then set (nodes d1) else {})"
proof (cases "dstype d1 = Categorical")
  case True
  with assms(1,3) have "count_loop d1 [0 ..< length (nodes d1)] = (None, d2)"
    by (simp add: count_values_def)
  from count_loop_keys [OF this] assms(2)
  have "set (keys (node_values d2)) = (\<lambda>j. nodes d1 ! j) ` {0 ..< length (nodes d1)}"
    by (simp add: keys_def)
  also have "\<dots> = set (nodes d1)"
    by (simp add: set_conv_nth image_def Bex_def conj_commute)
  finally show ?thesis using True by simp
next
  case False
  with assms(1,2) show ?thesis by (simp add: count_values_def keys_def)
qed

lemma label_counts_value_counts:
  assumes "distinct cats" and "col \<noteq> []" and "label_counts cats (bincount col) = Inr vc"
  shows "vc = value_counts cats col"
proof -
  define ys where "ys = map unat col"
  define m where "m = Suc (Max (set ys))"
  define bc where "bc = map (count_list ys) [0 ..< m]"
  have bc: "bincount col = bc" using assms(2) by (simp add: bincount_def bc_def m_def ys_def)
  have lb: "length bc = m" by (simp add: bc_def)
  from assms(3) bc lb have le: "m \<le> length cats"
    by (auto simp: label_counts_def split: if_splits)
  define ks where "ks = take m cats"
  define kvs where "kvs = zip ks bc"
  have lk: "length ks = m" using le by (simp add: ks_def)
  have fk: "map fst kvs = ks" using lk lb by (simp add: kvs_def)
  have dk: "distinct ks" using assms(1) by (simp add: ks_def)
  then have dd: "dict_of kvs = kvs" using fk by (intro dict_of_distinct) simp
  from assms(3) bc lb le dd fk
  have vc: "vc = map (\<lambda>v. (v, the (map_of kvs v))) (sort ks)"
    by (simp add: label_counts_def kvs_def ks_def keys_def)
  have "the (map_of kvs v) = count_list ys (the (index_of cats v))" if "v \<in> set (sort ks)" for v
  proof -
    from that have "v \<in> set ks" by simp
    then obtain i where i: "i < m" "ks ! i = v" using lk by (auto simp: in_set_conv_nth)
    with le have ci: "i < length cats" "cats ! i = v" by (simp_all add: ks_def)
    from index_of_nth [OF assms(1) ci(1)] ci(2) have ix: "index_of cats v = Some i" by simp
    have "map_of (zip ks bc) (ks ! i) = Some (bc ! i)"
      by (rule map_of_zip_nth) (use lk lb dk i in simp_all)
    with i ix show ?thesis by (simp add: kvs_def bc_def)
  qed
  then have "map (\<lambda>v. (v, the (map_of kvs v))) (sort ks)
             = map (\<lambda>v. (v, count_list ys (the (index_of cats v)))) (sort ks)"
    by (intro map_cong) simp_all
  with vc show ?thesis by (simp add: value_counts_def ks_def m_def ys_def)
qed

lemma foldl_update_dict_of:
  "foldl (\<lambda>d kv. AList.update (fst kv) (snd kv) d) [] (map f js) = dict_of (map f js)"
  by (simp add: dict_of_def)

lemma count_loop_closed:
  assumes "count_loop d js = (None, d')" and "sample d = U8 rows" and "rows \<noteq> []"
    and "categories d = Some cs" and "\<forall>c \<in> set cs. distinct c"
  shows "node_values d'
         = foldl (\<lambda>nv kv. AList.update (fst kv) (snd kv) nv) (node_values d)
             (map (\<lambda>j. (nodes d ! j, value_counts (cs ! j) (column j rows))) js)"
  using assms
proof (induction js arbitrary: d)
  case Nil
  then show ?case by simp
next
  case (Cons j js)
  from Cons.prems(1) obtain n vc where nc: "node_counts d j = Inr (n, vc)"
    and r: "count_loop (d\<lparr>node_values := AList.update n vc (node_values d)\<rparr>) js = (None, d')"
    by (auto split: sum.splits)
  from node_counts_name [OF nc] have n: "n = nodes d ! j" by simp
  from nc Cons.prems(2,4) have j: "j < length cs"
    and lc: "label_counts (cs ! j) (bincount (column j rows)) = Inr vc"
    by (auto simp: node_counts_def split: if_splits sum.splits)
  from j Cons.prems(5) have dj: "distinct (cs ! j)" by simp
  have "column j rows \<noteq> []" using Cons.prems(3) by (simp add: column_def)
  from label_counts_value_counts [OF dj this lc]
  have vc: "vc = value_counts (cs ! j) (column j rows)" .
  define d1 where "d1 = d\<lparr>node_values := AList.update n vc (node_values d)\<rparr>"
  have p: "sample d1 = U8 rows" "categories d1 = Some cs" "nodes d1 = nodes d"
    "node_values d1 = AList.update n vc (node_values d)"
    using Cons.prems(2,4) by (simp_all add: d1_def)
  from Cons.IH [OF r [folded d1_def] p(1) Cons.prems(3) p(2) Cons.prems(5)]
  show ?case by (simp add: p n vc)
qed

lemma mapM_each: "mapM f xs = Inr ys \<Longrightarrow> x \<in> set xs \<Longrightarrow> \<exists>y. f x = Inr y"
  by (induction xs arbitrary: ys) (auto split: sum.splits)

lemma mapM_map: "mapM f xs = Inr ys \<Longrightarrow> ys = map (\<lambda>x. projr (f x)) xs"
  by (induction xs arbitrary: ys) (auto split: sum.splits)

lemma rekey_closed:
  assumes "rekey m nv = Inr nv'"
  shows "nv' = dict_of (map (\<lambda>(n, v). (the (map_of m n), v)) nv)"
proof -
  from assms obtain kvs where
    k: "mapM (\<lambda>(n, v). case lookup m n of Inl e \<Rightarrow> Inl e | Inr n' \<Rightarrow> Inr (n', v)) nv = Inr kvs"
    and nv': "nv' = dict_of kvs"
    by (auto simp: rekey_def split: sum.splits)
  have "kvs = map (\<lambda>(n, v). (the (map_of m n), v)) nv" using k
  proof (induction nv arbitrary: kvs)
    case Nil
    then show ?case by simp
  next
    case (Cons p nv)
    obtain n v where p: "p = (n, v)" by (cases p)
    from Cons.prems p obtain n' r where r: "lookup m n = Inr n'"
      "mapM (\<lambda>(n, v). case lookup m n of Inl e \<Rightarrow> Inl e | Inr n' \<Rightarrow> Inr (n', v)) nv = Inr r"
      "kvs = (n', v) # r"
      by (auto split: sum.splits)
    from r(1) have "the (map_of m n) = n'" by (auto simp: lookup_def split: option.splits)
    with Cons.IH [OF r(2)] r(3) p show ?case by simp
  qed
  with nv' show ?thesis by simp
qed

lemma randomise_names_closed:
  assumes "randomise_names env d seed = (None, d')"
  shows "\<exists>o2e. generate_random_names env seed (nodes d) = Inr o2e
           \<and> orig_to_ext d' = o2e
           \<and> ext_to_orig d' = dict_of (map (\<lambda>(orig, ext). (ext, orig)) o2e)
           \<and> node_values d'
               = dict_of (map (\<lambda>(n, vc). (renamed (orig_to_ext d) o2e n, vc)) (node_values d))
           \<and> node_types d'
               = dict_of (map (\<lambda>(n, t). (renamed (orig_to_ext d) o2e n, t)) (node_types d))"
proof -
  from assms obtain o2e where g: "generate_random_names env seed (nodes d) = Inr o2e"
    by (cases "generate_random_names env seed (nodes d)")
       (auto simp: randomise_names_def Let_def)
  define d1 where "d1 = d\<lparr>orig_to_ext := o2e,
                        ext_to_orig := dict_of (map (\<lambda>(orig, ext). (ext, orig)) o2e)\<rparr>"
  from assms g obtain kvs where
    k: "mapM (\<lambda>orig. case lookup (orig_to_ext d) orig of
                                     Inl e \<Rightarrow> Inl e
                                   | Inr old \<Rightarrow> Inr (old, the (map_of o2e orig)))
                          (keys o2e) = Inr kvs"
    by (cases "mapM (\<lambda>orig. case lookup (orig_to_ext d) orig of
                                     Inl e \<Rightarrow> Inl e
                                   | Inr old \<Rightarrow> Inr (old, the (map_of o2e orig)))
                          (keys o2e)")
       (auto simp: randomise_names_def Let_def)
  have "kvs = map (\<lambda>orig. (the (map_of (orig_to_ext d) orig), the (map_of o2e orig))) (keys o2e)"
  proof -
    have "projr (case lookup (orig_to_ext d) orig of
                                     Inl e \<Rightarrow> Inl e
                                   | Inr old \<Rightarrow> Inr (old, the (map_of o2e orig)))
          = (the (map_of (orig_to_ext d) orig), the (map_of o2e orig))"
      if "orig \<in> set (keys o2e)" for orig
    proof -
      from mapM_each [OF k that]
      obtain y where "(case lookup (orig_to_ext d) orig of
                                     Inl e \<Rightarrow> Inl e
                                   | Inr old \<Rightarrow> Inr (old, the (map_of o2e orig))) = Inr y"
        by blast
      then show ?thesis by (auto simp: lookup_def split: option.splits sum.splits)
    qed
    with mapM_map [OF k] show ?thesis by (simp cong: map_cong)
  qed
  then have m: "\<And>n. the (map_of (dict_of kvs) n) = renamed (orig_to_ext d) o2e n"
    by (simp add: renamed_def)
  from assms g k obtain nv nt where
    r: "rekey (dict_of kvs) (node_values d) = Inr nv"
      "rekey (dict_of kvs) (node_types d) = Inr nt"
      "d' = d1\<lparr>node_values := nv, node_types := nt\<rparr>"
    by (auto simp: randomise_names_def Let_def d1_def split: sum.splits)
  from rekey_closed [OF r(1)] rekey_closed [OF r(2)] m r(3) g show ?thesis
    by (simp add: d1_def)
qed

lemma set_N_node_values:
  assumes "set_N env d n seed = (None, d')"
  shows "(dstype d \<noteq> Categorical \<longrightarrow> node_values d' = [])
         \<and> (\<forall>drows cs. data d = U8 drows \<and> categories d = Some cs \<and> dstype d = Categorical
                \<and> (\<forall>c \<in> set cs. distinct c)
              \<longrightarrow> node_values d'
                  = dict_of (map (\<lambda>j. (nodes d ! j,
                                         value_counts (cs ! j) (column j (take (nat n) drows))))
                                  [0 ..< row_len (take (nat n) drows)]))"
proof -
  from set_N_success [OF assms] have n: "1 \<le> n" "n \<le> int (shape0 (data d))" by simp_all
  from assms obtain d2 where c: "count_values (resized d n) = (None, d2)"
    and nv: "node_values d' = node_values d2"
    by (cases rule: set_N_cases) auto
  have 1: "node_values d' = []" if "dstype d \<noteq> Categorical"
    using c nv that by (auto simp: count_values_def resized_eq)
  have 2: "node_values d'
                  = dict_of (map (\<lambda>j. (nodes d ! j,
                                         value_counts (cs ! j) (column j (take (nat n) drows))))
                                  [0 ..< row_len (take (nat n) drows)])"
    if h: "data d = U8 drows" "categories d = Some cs" "dstype d = Categorical"
      "\<forall>c \<in> set cs. distinct c" for drows cs
  proof -
    define rows where "rows = take (nat n) drows"
    from n h(1) have "0 < nat n" "nat n \<le> length drows" by (simp_all add: shape0_def)
    then have ne: "rows \<noteq> []" by (auto simp: rows_def)
    have r: "sample (resized d n) = U8 rows" "categories (resized d n) = Some cs"
      "nodes (resized d n) = nodes d" "node_values (resized d n) = []"
      "dstype (resized d n) = Categorical"
      using h by (simp_all add: resized_eq take_rows_def rows_def)
    from c r have "count_loop (resized d n) [0 ..< row_len rows] = (None, d2)"
      by (simp add: count_values_def shape1_def)
    from count_loop_closed [OF this r(1) ne r(2) h(4)] nv r show ?thesis
      by (simp add: dict_of_def rows_def)
  qed
  from 1 2 show ?thesis by blast
qed

text \<open>
  C5. The claim that \<open>set_N\<close> leaves the object it is called on as it was fails: the call
  assigns \<open>N\<close>, \<open>sample\<close> and \<open>node_values\<close> of that very object.
\<close>

theorem set_N_changes_instance_counterexample:
  "fst (set_N ex_env ex_d 4 None) = None
   \<and> N (snd (set_N ex_env ex_d 4 None)) \<noteq> N ex_d
   \<and> sample (snd (set_N ex_env ex_d 4 None)) \<noteq> sample ex_d
   \<and> node_values (snd (set_N ex_env ex_d 4 None)) \<noteq> node_values ex_d"
  by code_simp

text \<open>
  C5, as the code has it. \<open>set_N\<close> and \<open>randomise_names\<close> update the object they are called
  on and return no other object. \<open>set_N\<close> leaves the data, the nodes, the categories, the
  order, the two name maps, the node types and the type of the data set as they were,
  whether it raises or not. When it does not raise it has assigned \<open>N\<close>, the size asked
  for; \<open>sample\<close>, the first \<open>N\<close> rows of the data, in the order of the permutation when a
  seed other than 0 is given; and \<open>node_values\<close>, which is empty unless the data set is
  categorical and then holds, under the original name of each variable, the value counts
  of its column of the first \<open>N\<close> rows (for labels that are distinct).
  \<open>randomise_names\<close> leaves the data, the sample, \<open>N\<close>, the nodes, the categories, the
  order and the type of the data set as they were, whether it raises or not. When it does
  not raise it has assigned \<open>orig_to_ext\<close>, the names generated for the seed, and
  \<open>ext_to_orig\<close>, the same pairs turned round, and has put each entry of \<open>node_values\<close>
  and of \<open>node_types\<close> under the new external name of its variable.
\<close>

theorem updates_in_place:
  "(set_N env d n seed = (e, d') \<longrightarrow>
      data d' = data d \<and> nodes d' = nodes d \<and> categories d' = categories d
      \<and> order d' = order d \<and> ext_to_orig d' = ext_to_orig d
      \<and> orig_to_ext d' = orig_to_ext d \<and> node_types d' = node_types d
      \<and> dstype d' = dstype d)
   \<and> (set_N env d n seed = (None, d') \<longrightarrow>
      N d' = n
      \<and> (if seed = None \<or> seed = Some 0 then sample d' = take_rows (nat n) (data d)
          else pick_rows (permutation env (nat (the seed)) (nat n))
                 (take_rows (nat n) (data d)) = Inr (sample d'))
      \<and> (dstype d \<noteq> Categorical \<longrightarrow> node_values d' = [])
      \<and> (\<forall>drows cs. data d = U8 drows \<and> categories d = Some cs \<and> dstype d = Categorical
                \<and> (\<forall>c \<in> set cs. distinct c)
              \<longrightarrow> node_values d'
                  = dict_of (map (\<lambda>j. (nodes d ! j,
                                         value_counts (cs ! j) (column j (take (nat n) drows))))
                                  [0 ..< row_len (take (nat n) drows)])))
   \<and> (randomise_names env d seed' = (e', d'') \<longrightarrow>
      data d'' = data d \<and> sample d'' = sample d \<and> N d'' = N d \<and> nodes d'' = nodes d
      \<and> categories d'' = categories d \<and> order d'' = order d \<and> dstype d'' = dstype d)
   \<and> (randomise_names env d seed' = (None, d'') \<longrightarrow>
      (\<exists>o2e. generate_random_names env seed' (nodes d) = Inr o2e
           \<and> orig_to_ext d'' = o2e
           \<and> ext_to_orig d'' = dict_of (map (\<lambda>(orig, ext). (ext, orig)) o2e)
           \<and> node_values d''
               = dict_of (map (\<lambda>(n, vc). (renamed (orig_to_ext d) o2e n, vc)) (node_values d))
           \<and> node_types d''
               = dict_of (map (\<lambda>(n, t). (renamed (orig_to_ext d) o2e n, t)) (node_types d))))"
proof (intro conjI impI)
  assume "set_N env d n seed = (e, d')"
  from set_N_frame [OF this]
  show "data d' = data d" "nodes d' = nodes d" "categories d' = categories d"
    "order d' = order d" "ext_to_orig d' = ext_to_orig d"
    "orig_to_ext d' = orig_to_ext d" "node_types d' = node_types d"
    "dstype d' = dstype d" by simp_all
next
  assume s: "set_N env d n seed = (None, d')"
  from set_N_success [OF s]
  show "N d' = n"
    "if seed = None \<or> seed = Some 0 then sample d' = take_rows (nat n) (data d)
          else pick_rows (permutation env (nat (the seed)) (nat n))
                 (take_rows (nat n) (data d)) = Inr (sample d')" by simp_all
  from set_N_node_values [OF s]
  show "\<forall>drows cs. data d = U8 drows \<and> categories d = Some cs \<and> dstype d = Categorical
                \<and> (\<forall>c \<in> set cs. distinct c)
              \<longrightarrow> node_values d'
                  = dict_of (map (\<lambda>j. (nodes d ! j,
                                         value_counts (cs ! j) (column j (take (nat n) drows))))
                                  [0 ..< row_len (take (nat n) drows)])" by blast
  assume "dstype d \<noteq> Categorical"
  with set_N_node_values [OF s] show "node_values d' = []" by blast
next
  assume "randomise_names env d seed' = (e', d'')"
  from randomise_names_frame [OF this]
  show "data d'' = data d" "sample d'' = sample d" "N d'' = N d" "nodes d'' = nodes d"
    "categories d'' = categories d" "order d'' = order d" "dstype d'' = dstype d"
    by simp_all
next
  assume "randomise_names env d seed' = (None, d'')"
  then show "\<exists>o2e. generate_random_names env seed' (nodes d) = Inr o2e
           \<and> orig_to_ext d'' = o2e
           \<and> ext_to_orig d'' = dict_of (map (\<lambda>(orig, ext). (ext, orig)) o2e)
           \<and> node_values d''
               = dict_of (map (\<lambda>(n, vc). (renamed (orig_to_ext d) o2e n, vc)) (node_values d))
           \<and> node_types d''
               = dict_of (map (\<lambda>(n, t). (renamed (orig_to_ext d) o2e n, t)) (node_types d))"
    by (rule randomise_names_closed)
qed

theorem updates_in_place_witness:
  "set_N ex_env ex_d 4 (Some 3) = (None, ex_d4)
   \<and> data ex_d4 = data ex_d \<and> orig_to_ext ex_d4 = orig_to_ext ex_d \<and> N ex_d4 = 4
   \<and> pick_rows (permutation ex_env 3 4) (take_rows 4 (data ex_d)) = Inr (sample ex_d4)
   \<and> node_values ex_d4
       = dict_of (map (\<lambda>j. (nodes ex_d ! j,
                              value_counts ([[''a0'', ''a1'', ''a2''], [''b1'', ''b0'']] ! j)
                                (column j (take 4 [[0, 0], [1, 0], [0, 1], [1, 1], [2, 1]]))))
                      [0 ..< row_len (take 4 [[0, 0], [1, 0], [0, 1], [1, 1], [2, 1 :: 8 word]])])
   \<and> randomise_names ex_env ex_d (Some 1) = (None, ex_renamed)
   \<and> sample ex_renamed = sample ex_d \<and> N ex_renamed = N ex_d
   \<and> (\<exists>o2e. generate_random_names ex_env (Some 1) (nodes ex_d) = Inr o2e
           \<and> orig_to_ext ex_renamed = o2e
           \<and> ext_to_orig ex_renamed = dict_of (map (\<lambda>(orig, ext). (ext, orig)) o2e)
           \<and> node_values ex_renamed
               = dict_of (map (\<lambda>(n, vc). (renamed (orig_to_ext ex_d) o2e n, vc))
                              (node_values ex_d))
           \<and> node_types ex_renamed
               = dict_of (map (\<lambda>(n, t). (renamed (orig_to_ext ex_d) o2e n, t))
                              (node_types ex_d)))"
proof -
  have rn: "randomise_names ex_env ex_d (Some 1) = (None, ex_renamed)" by code_simp
  note u = updates_in_place [of ex_env ex_d 4 "Some 3" None ex_d4 "Some 1" None ex_renamed]
  have h: "data ex_d = U8 [[0, 0], [1, 0], [0, 1], [1, 1], [2, 1]]
           \<and> categories ex_d = Some [[''a0'', ''a1'', ''a2''], [''b1'', ''b0'']]
           \<and> dstype ex_d = Categorical
           \<and> (\<forall>c \<in> set [[''a0'', ''a1'', ''a2''], [''b1'', ''b0'']]. distinct c)"
    by (simp add: ex_d_def ex_data_def)
  from u ex_set_N_4 have 1: "data ex_d4 = data ex_d" "orig_to_ext ex_d4 = orig_to_ext ex_d"
    "N ex_d4 = 4"
    "pick_rows (permutation ex_env 3 4) (take_rows 4 (data ex_d)) = Inr (sample ex_d4)"
    by simp_all
  note b = mp [OF conjunct1 [OF conjunct2 [OF u]] ex_set_N_4]
  note a = conjunct2 [OF conjunct2 [OF conjunct2 [OF b]]]
  have n4: "nat 4 = 4" by simp
  note 2 = mp [OF spec [OF spec [OF a]] h, unfolded n4]
  from u rn have 3: "sample ex_renamed = sample ex_d" "N ex_renamed = N ex_d" by simp_all
  from u rn have 4: "\<exists>o2e. generate_random_names ex_env (Some 1) (nodes ex_d) = Inr o2e
           \<and> orig_to_ext ex_renamed = o2e
           \<and> ext_to_orig ex_renamed = dict_of (map (\<lambda>(orig, ext). (ext, orig)) o2e)
           \<and> node_values ex_renamed
               = dict_of (map (\<lambda>(n, vc). (renamed (orig_to_ext ex_d) o2e n, vc))
                              (node_values ex_d))
           \<and> node_types ex_renamed
               = dict_of (map (\<lambda>(n, t). (renamed (orig_to_ext ex_d) o2e n, t))
                              (node_types ex_d))"
    by blast
  from ex_set_N_4 rn 1 2 3 4 show ?thesis by blast
qed

subsection \<open>The names in force and the validation of marginals\<close>

lemma init_variables:
  assumes "NumPy_init env a t col_values = Inr d"
  shows "shape1 (data d) = length (nodes d)
         \<and> set (keys (node_values d)) = (if dstype d = Categorical then set (nodes d) else {})"
proof -
  define d0 where "d0 = (fresh a t col_values)\<lparr>N := int (shape0 a)\<rparr>"
  from init_cases [OF assms] have c: "count_values d0 = (None, d)" by (simp add: d0_def)
  from init_fields [OF assms] have f: "shape1 a = length (keys col_values)"
    "nodes d = keys col_values" "data d = a" "dstype d = t"
    by (simp_all add: keys_def)
  have 0: "node_values d0 = []" "sample d0 = a" "nodes d0 = keys col_values" "dstype d0 = t"
    by (simp_all add: d0_def fresh_def Let_def)
  from count_values_keys [OF c 0(1)] 0 f show ?thesis by simp
qed

lemma set_N_variables:
  assumes "set_N env d n seed = (None, d')" and "shape1 (data d) = length (nodes d)"
  shows "set (keys (node_values d')) = (if dstype d = Categorical then set (nodes d) else {})"
proof -
  note su = set_N_success [OF assms(1)]
  from su have n: "0 < nat n" by simp
  have r: "node_values (resized d n) = []"
    "sample (resized d n) = take_rows (nat n) (data d)" "nodes (resized d n) = nodes d"
    "dstype (resized d n) = dstype d"
    by (simp_all add: resized_eq)
  have key: "set (keys (node_values d2)) = (if dstype d = Categorical then set (nodes d) else {})"
    if "count_values (resized d n) = (None, d2)" for d2
  proof -
    have "shape1 (sample (resized d n)) = length (nodes (resized d n))"
      using assms(2) shape1_take_rows [OF n, of "data d"] by (simp add: r)
    from count_values_keys [OF that r(1) this] show ?thesis by (simp add: r)
  qed
  from assms(1) show ?thesis
  proof (cases rule: set_N_cases)
    case unpermuted
    then show ?thesis by (intro key)
  next
    case (permuted s d2 a)
    from key [OF permuted(6)] permuted(8) show ?thesis by simp
  qed simp_all
qed

lemma map_of_self: "map_of (map (\<lambda>n. (n, f n)) ns) n = (if n \<in> set ns then Some (f n) else None)"
  by (induction ns) auto

lemma fst_foldl_update:
  "fst ` set (foldl (\<lambda>d kv. AList.update (fst kv) (snd kv) d) acc kvs)
   = fst ` set acc \<union> fst ` set kvs"
  by (induction kvs arbitrary: acc) (auto simp: dom_update)

lemma keys_dict_of: "set (keys (dict_of kvs)) = fst ` set kvs"
  using fst_foldl_update [of "[]" kvs] by (simp add: dict_of_def keys_def)

lemma map_of_dict_of_unique:
  assumes "(k, v) \<in> set kvs" and "\<And>v'. (k, v') \<in> set kvs \<Longrightarrow> v' = v"
  shows "map_of (dict_of kvs) k = Some v"
proof -
  from assms(1) have "k \<in> fst ` set kvs" by (rule rev_image_eqI) simp
  then have "k \<in> fst ` set (dict_of kvs)" using keys_dict_of [of kvs] by (simp add: keys_def)
  then obtain v' where v': "map_of (dict_of kvs) k = Some v'"
    by (cases "map_of (dict_of kvs) k") (auto simp: map_of_eq_None_iff)
  then have "(k, v') \<in> set (dict_of kvs)" by (rule map_of_SomeD)
  with set_dict_of [of kvs] have "(k, v') \<in> set kvs" by blast
  from assms(2) [OF this] v' show ?thesis by simp
qed

lemma renamed_current:
  assumes "inj_on (\<lambda>n. the (map_of old n)) (set ns)" and "set (keys new) = set ns"
    and "n \<in> set ns"
  shows "renamed old new (the (map_of old n)) = the (map_of new n)"
proof -
  define kvs where
    "kvs = map (\<lambda>orig. (the (map_of old orig), the (map_of new orig))) (keys new)"
  from assms(2,3) have 1: "(the (map_of old n), the (map_of new n)) \<in> set kvs"
    by (auto simp: kvs_def)
  have 2: "v' = the (map_of new n)" if "(the (map_of old n), v') \<in> set kvs" for v'
  proof -
    from that obtain orig where o: "orig \<in> set (keys new)"
      "the (map_of old orig) = the (map_of old n)" "v' = the (map_of new orig)"
      by (auto simp: kvs_def)
    from o(1) assms(2) have "orig \<in> set ns" by simp
    with assms(1,3) o(2) have "orig = n" by (auto dest: inj_onD)
    with o(3) show ?thesis by simp
  qed
  from map_of_dict_of_unique [OF 1 2] show ?thesis by (simp add: renamed_def kvs_def)
qed

lemma in_step_variables:
  assumes "in_step env d" and "names_ok env"
  shows "shape1 (data d) = length (nodes d)
         \<and> set (keys (node_values d))
             = (if dstype d = Categorical then set (current_names d) else {})
         \<and> inj_on (\<lambda>n. the (map_of (orig_to_ext d) n)) (set (nodes d))"
  using assms
proof (induction rule: in_step.induct)
  case (init a t col_values d)
  from init_names [OF init(1)] init_fields [OF init(1)]
  have o: "orig_to_ext d = map (\<lambda>n. (n, n)) (nodes d)" by simp
  have e: "the (map_of (orig_to_ext d) n) = n" if "n \<in> set (nodes d)" for n
    using that by (simp add: o map_of_self)
  then have c: "current_names d = nodes d"
    by (simp add: current_names_def map_idI)
  have "inj_on (\<lambda>n. the (map_of (orig_to_ext d) n)) (set (nodes d))"
    by (rule inj_onI) (simp add: e)
  with init_variables [OF init(1)] c show ?case by simp
next
  case (set_N d n seed d')
  note fr = set_N_frame [OF set_N(3)]
  from set_N.IH [OF set_N(5)] have ih: "shape1 (data d) = length (nodes d)"
    "inj_on (\<lambda>n. the (map_of (orig_to_ext d) n)) (set (nodes d))" by simp_all
  from fr set_N(2) have c: "current_names d' = nodes d" by (simp add: current_names_def)
  from set_N_variables [OF set_N(3) ih(1)] fr ih c show ?case by simp
next
  case (randomise_names d seed d')
  note fr = randomise_names_frame [OF randomise_names(2)]
  note ih = randomise_names.IH [OF randomise_names(4)]
  from randomise_names_closed [OF randomise_names(2)] obtain o2e where
    g: "generate_random_names env seed (nodes d) = Inr o2e" and o: "orig_to_ext d' = o2e"
    and nv: "node_values d'
             = dict_of (map (\<lambda>(n, vc). (renamed (orig_to_ext d) o2e n, vc)) (node_values d))"
    by blast
  from randomise_names(4) g have ok: "set (keys o2e) = set (nodes d)"
    "inj_on (\<lambda>n. the (map_of o2e n)) (set (nodes d))"
    unfolding names_ok_def by blast+
  have "set (keys (node_values d'))
        = fst ` set (map (\<lambda>(n, vc). (renamed (orig_to_ext d) o2e n, vc)) (node_values d))"
    by (simp only: nv keys_dict_of)
  then have k: "set (keys (node_values d'))
                = renamed (orig_to_ext d) o2e ` set (keys (node_values d))"
    by (simp add: keys_def image_image case_prod_beta)
  have "set (keys (node_values d'))
        = (if dstype d = Categorical then set (current_names d') else {})"
  proof (cases "dstype d = Categorical")
    case True
    with ih have "set (keys (node_values d)) = set (current_names d)" by simp
    with k have "set (keys (node_values d'))
                 = (\<lambda>n. renamed (orig_to_ext d) o2e (the (map_of (orig_to_ext d) n)))
                     ` set (nodes d)"
      by (simp add: current_names_def image_image)
    also have "\<dots> = (\<lambda>n. the (map_of o2e n)) ` set (nodes d)"
    proof (rule image_cong [OF refl])
      fix n assume "n \<in> set (nodes d)"
      with ih ok(1) show "renamed (orig_to_ext d) o2e (the (map_of (orig_to_ext d) n))
                          = the (map_of o2e n)"
        by (intro renamed_current [where ns = "nodes d"]) simp_all
    qed
    also have "\<dots> = set (current_names d')" by (simp add: current_names_def o fr)
    finally show ?thesis using True by simp
  next
    case False
    with ih have "node_values d = []" by (simp add: keys_def)
    with nv False show ?thesis by (simp add: dict_of_def keys_def)
  qed
  with fr ih ok(2) o show ?case by simp
qed

lemma ex_names_ok: "names_ok ex_env"
  by (auto simp: names_ok_def ex_env_def keys_def o_def map_of_self image_image intro!: inj_onI)

lemma ex_names_ok_nat: "names_ok ex_env_nat"
  by (auto simp: names_ok_def ex_env_nat_def keys_def o_def map_of_self image_image
      intro!: inj_onI)

text \<open>
  C4. The claim fails in three respects. The class has no two kinds of error: a variable
  that is absent and a variable asked for twice raise the same \<open>ValueError\<close>. On a
  continuous data set \<open>node_values\<close> is empty, so a variable of the data set, asked for
  once, is rejected. And \<open>set_N\<close> files the value counts under the original names: after
  \<open>randomise_names(1)\<close> and \<open>set_N(4)\<close> the variable whose name in force is \<open>XA\<close> is
  rejected.
\<close>

theorem marginals_rejects_counterexample:
  "NumPy_init ex_env_nat (F32 ex_rows) Continuous [(''X'', None), (''Y'', None), (''Z'', None)]
     = Inr ex_c
   \<and> ''X'' \<in> set (nodes ex_c)
   \<and> marginals ex_c ''X'' [] False = Inl (ValueError ''NumPy.marginals() bad arg value'')
   \<and> NumPy_init ex_env ex_data Categorical ex_col_values = Inr ex_d
   \<and> randomise_names ex_env ex_d (Some 1) = (None, ex_renamed)
   \<and> set_N ex_env ex_renamed 4 None = (None, ex_renamed4)
   \<and> current_names ex_renamed4 = [''XA'', ''XB'']
   \<and> marginals ex_renamed4 ''XA'' [] False = Inl (ValueError ''NumPy.marginals() bad arg value'')
   \<and> marginals ex_d ''C'' [] False = Inl (ValueError ''NumPy.marginals() bad arg value'')
   \<and> marginals ex_d ''A'' [(''A'', [''B'', ''B''])] False
       = Inl (ValueError ''NumPy.marginals() bad arg value'')"
  by code_simp

text \<open>
  C4, as the code has it. On a categorical data set, \<open>marginals\<close> raises its
  \<open>ValueError\<close> exactly when the node or one of its parents is not the name in force of
  a variable of the data set, or a variable is asked for twice; a call whose names are
  all names in force and distinct does not raise it. On a data set of another type every
  call raises it. The data set is in a state the constructor and \<open>randomise_names\<close> lead
  to, with calls of \<open>set_N\<close> made while the original names are in force; the names that
  \<open>_generate_random_names\<close> gives are taken to be different for different variables.
\<close>

theorem marginals_rejects:
  assumes "in_step env d" and "names_ok env"
  shows "(dstype d = Categorical \<longrightarrow>
            (marginals d node parents values_reqd = Inl query_error
             \<longleftrightarrow> \<not> set (query_nodes node parents) \<subseteq> set (current_names d)
                 \<or> \<not> distinct (query_nodes node parents)))
         \<and> (dstype d \<noteq> Categorical \<longrightarrow>
              marginals d node parents values_reqd = Inl query_error)"
proof -
  note v = in_step_variables [OF assms]
  have bad: "marginals d node parents values_reqd = Inl query_error"
    if "bad_query d (query_nodes node parents)"
    using that by (simp add: marginals_def query_error_def)
  have good: "marginals d node parents values_reqd \<noteq> Inl query_error"
    if nb: "\<not> bad_query d (query_nodes node parents)"
  proof
    assume m: "marginals d node parents values_reqd = Inl query_error"
    show False
    proof (cases "mapM (col_index d) (query_nodes node parents)")
      case (Inl e)
      with m nb have "e = query_error"
        by (auto simp: marginals_def Let_def split: if_splits)
      with Inl show False by (auto dest!: mapM_Inl dest: col_index_error)
    next
      case (Inr js)
      with m nb have "multiple d node (tl (query_nodes node parents)) js values_reqd
                      = Inl query_error"
        by (auto simp: marginals_def Let_def split: if_splits)
      then show False by (auto dest: multiple_error)
    qed
  qed
  have q: "query_nodes node parents \<noteq> []" by (simp add: query_nodes_def split: option.splits)
  show ?thesis
  proof (intro conjI impI)
    assume c: "dstype d = Categorical"
    with v have "bad_query d (query_nodes node parents)
                 \<longleftrightarrow> \<not> set (query_nodes node parents) \<subseteq> set (current_names d)
                     \<or> \<not> distinct (query_nodes node parents)"
      by (simp add: bad_query_def)
    with bad good
    show "marginals d node parents values_reqd = Inl query_error
             \<longleftrightarrow> \<not> set (query_nodes node parents) \<subseteq> set (current_names d)
                 \<or> \<not> distinct (query_nodes node parents)" by blast
  next
    assume "dstype d \<noteq> Categorical"
    with v q have "bad_query d (query_nodes node parents)"
      by (cases "query_nodes node parents") (simp_all add: bad_query_def)
    then show "marginals d node parents values_reqd = Inl query_error" by (rule bad)
  qed
qed

theorem marginals_rejects_witness:
  "in_step ex_env ex_d4 \<and> names_ok ex_env \<and> dstype ex_d4 = Categorical
   \<and> current_names ex_d4 = [''A'', ''B'']
   \<and> marginals ex_d4 ''C'' [] False = Inl query_error
   \<and> marginals ex_d4 ''A'' [(''A'', [''B'', ''B''])] False = Inl query_error
   \<and> marginals ex_d4 ''A'' [(''A'', [''B''])] False \<noteq> Inl query_error
   \<and> in_step ex_env ex_renamed \<and> current_names ex_renamed = [''XA'', ''XB'']
   \<and> marginals ex_renamed ''A'' [] False = Inl query_error
   \<and> marginals ex_renamed ''XB'' [(''XB'', [''XA''])] False \<noteq> Inl query_error
   \<and> in_step ex_env_nat ex_c \<and> names_ok ex_env_nat \<and> dstype ex_c \<noteq> Categorical
   \<and> marginals ex_c ''X'' [] False = Inl query_error"
proof -
  have i: "in_step ex_env ex_d" by (rule in_step.init [OF ex_init])
  have cd: "current_names ex_d = nodes ex_d" by (simp add: current_names_def ex_d_def)
  have s: "in_step ex_env ex_d4" by (rule in_step.set_N [OF i cd ex_set_N_4])
  have rn: "randomise_names ex_env ex_d (Some 1) = (None, ex_renamed)" by code_simp
  have r: "in_step ex_env ex_renamed" by (rule in_step.randomise_names [OF i rn])
  have c: "in_step ex_env_nat ex_c" by (rule in_step.init [OF ex_c_init])
  have t: "dstype ex_d4 = Categorical" "dstype ex_renamed = Categorical"
    "dstype ex_c \<noteq> Categorical"
    by (simp_all add: ex_d4_def ex_renamed_def ex_d_def ex_c_def)
  have n: "current_names ex_d4 = [''A'', ''B'']" "current_names ex_renamed = [''XA'', ''XB'']"
    by (simp_all add: current_names_def ex_d4_def ex_renamed_def ex_d_def)
  from marginals_rejects [OF s ex_names_ok, of "''C''" "[]" False]
    marginals_rejects [OF s ex_names_ok, of "''A''" "[(''A'', [''B'', ''B''])]" False]
    marginals_rejects [OF s ex_names_ok, of "''A''" "[(''A'', [''B''])]" False]
    marginals_rejects [OF r ex_names_ok, of "''A''" "[]" False]
    marginals_rejects [OF r ex_names_ok, of "''XB''" "[(''XB'', [''XA''])]" False]
    marginals_rejects [OF c ex_names_ok_nat, of "''X''" "[]" False]
    s r c t n ex_names_ok ex_names_ok_nat
  show ?thesis by (simp add: query_nodes_def)
qed

end
